theory Spec2Isabelle
  imports Complex_Main "HOL-Library.Log_Nat"
begin

section \<open>Problem 4: three ways to sum to n\<close>

subsection \<open>JavaScript numbers\<close>

text \<open>
  The functions of \<^verbatim>\<open>problem4/sum_to_n.ts\<close> compute with JavaScript numbers, which are
  IEEE 754 doubles. Each function first applies \<^verbatim>\<open>Math.trunc\<close>, so all arithmetic is on
  integer-valued doubles, the two infinities and \<^verbatim>\<open>NaN\<close>. A value \<open>Finite x\<close> is a
  double exactly when \<open>to_double x = Finite x\<close>; every operation below returns such
  values. The sign of zero is not modelled: it affects no comparison and no sum here.
\<close>

datatype number = Finite int | PosInf | NegInf | NaN

text \<open>\<^verbatim>\<open>Number.MAX_SAFE_INTEGER\<close>, which the header of the source file names.\<close>

definition MAX_SAFE_INTEGER :: int where
  "MAX_SAFE_INTEGER = 2 ^ 53 - 1"

text \<open>
  The double nearest to an integer, ties to the even significand: up to \<open>2 ^ 53\<close> every
  integer is a double; above, the 53 leading bits are kept, and the rounded value
  overflows to an infinity from \<open>2 ^ 1024\<close> on.
\<close>

definition to_double :: "int \<Rightarrow> number" where
  "to_double x =
     (if \<bar>x\<bar> \<le> 2 ^ 53 then Finite x
      else let e = nat (bitlen \<bar>x\<bar> - 53);
               q = \<bar>x\<bar> div 2 ^ e;
               r = \<bar>x\<bar> mod 2 ^ e;
               q' = (if 2 ^ e < 2 * r \<or> (2 * r = 2 ^ e \<and> odd q) then q + 1 else q)
           in if 2 ^ 1024 \<le> q' * 2 ^ e then (if 0 < x then PosInf else NegInf)
              else Finite (sgn x * (q' * 2 ^ e)))"

text \<open>The operators \<^verbatim>\<open>+\<close>, unary and binary \<^verbatim>\<open>-\<close>, and \<^verbatim>\<open>*\<close> on these values.\<close>

fun js_add :: "number \<Rightarrow> number \<Rightarrow> number" where
  "js_add NaN b = NaN"
| "js_add a NaN = NaN"
| "js_add PosInf NegInf = NaN"
| "js_add NegInf PosInf = NaN"
| "js_add PosInf b = PosInf"
| "js_add a PosInf = PosInf"
| "js_add NegInf b = NegInf"
| "js_add a NegInf = NegInf"
| "js_add (Finite a) (Finite b) = to_double (a + b)"

fun js_neg :: "number \<Rightarrow> number" where
  "js_neg (Finite a) = Finite (- a)"
| "js_neg PosInf = NegInf"
| "js_neg NegInf = PosInf"
| "js_neg NaN = NaN"

definition js_sub :: "number \<Rightarrow> number \<Rightarrow> number" where
  "js_sub a b = js_add a (js_neg b)"

fun js_sign :: "number \<Rightarrow> int" where
  "js_sign (Finite a) = sgn a"
| "js_sign PosInf = 1"
| "js_sign NegInf = - 1"
| "js_sign NaN = 0"

fun js_mul :: "number \<Rightarrow> number \<Rightarrow> number" where
  "js_mul NaN b = NaN"
| "js_mul a NaN = NaN"
| "js_mul (Finite a) (Finite b) = to_double (a * b)"
| "js_mul a b =
     (if js_sign a * js_sign b = 0 then NaN
      else if 0 < js_sign a * js_sign b then PosInf else NegInf)"

text \<open>
  The comparisons \<^verbatim>\<open><=\<close>, \<^verbatim>\<open><\<close>, \<^verbatim>\<open>>=\<close>, \<^verbatim>\<open>>\<close> and \<^verbatim>\<open>===\<close>; every comparison with
  \<^verbatim>\<open>NaN\<close> is false.
\<close>

fun js_le :: "number \<Rightarrow> number \<Rightarrow> bool" where
  "js_le NaN b = False"
| "js_le a NaN = False"
| "js_le NegInf b = True"
| "js_le a PosInf = True"
| "js_le PosInf b = False"
| "js_le a NegInf = False"
| "js_le (Finite a) (Finite b) = (a \<le> b)"

fun js_lt :: "number \<Rightarrow> number \<Rightarrow> bool" where
  "js_lt NaN b = False"
| "js_lt a NaN = False"
| "js_lt PosInf b = False"
| "js_lt a NegInf = False"
| "js_lt NegInf b = True"
| "js_lt a PosInf = True"
| "js_lt (Finite a) (Finite b) = (a < b)"

definition js_ge :: "number \<Rightarrow> number \<Rightarrow> bool" where
  "js_ge a b = js_le b a"

definition js_gt :: "number \<Rightarrow> number \<Rightarrow> bool" where
  "js_gt a b = js_lt b a"

definition js_eq :: "number \<Rightarrow> number \<Rightarrow> bool" where
  "js_eq a b = (a = b \<and> a \<noteq> NaN)"

text \<open>
  \<^verbatim>\<open>x / 2\<close>: halving an even integer, an infinity or \<^verbatim>\<open>NaN\<close> gives a value of the same
  kind; halving an odd integer gives the fraction \<open>x / 2\<close>, which is exact because odd
  doubles lie below \<open>2 ^ 53\<close>.
\<close>

datatype halved = Whole number | Odd_half int

fun js_half :: "number \<Rightarrow> halved" where
  "js_half (Finite x) = (if even x then Whole (Finite (x div 2)) else Odd_half x)"
| "js_half a = Whole a"

text \<open>\<^verbatim>\<open>Math.trunc\<close> on a value that is already integer-valued, infinite or \<^verbatim>\<open>NaN\<close>.\<close>

definition Math_trunc :: "number \<Rightarrow> number" where
  "Math_trunc n = n"

subsection \<open>The three functions\<close>

text \<open>
  The loop \<^verbatim>\<open>for (let i = start; i <= bound; i++) sum += i;\<close> with its running
  \<open>sum\<close> (named \<open>acc\<close> here). Both loops of \<^verbatim>\<open>sum_to_n_a\<close> have this shape. Once
  \<open>i\<close> reaches \<open>2 ^ 53\<close> the increment rounds back to \<open>i\<close> and the loop never ends;
  \<open>None\<close> is the value of a loop that never ends.
\<close>

partial_function (option) for_loop :: "number \<Rightarrow> number \<Rightarrow> number \<Rightarrow> number option" where
  "for_loop i bound acc =
     (if js_le i bound then for_loop (js_add i (Finite 1)) bound (js_add acc i) else Some acc)"

declare for_loop.simps [code]

definition sum_to_n_a :: "number \<Rightarrow> number option" where
  "sum_to_n_a n0 =
     (let n = Math_trunc n0
      in if js_ge n (Finite 1) then for_loop (Finite 1) n (Finite 0)
         else for_loop n (Finite 1) (Finite 0))"

text \<open>
  \<^verbatim>\<open>sum_to_n_b\<close> is recursive and not tail recursive: every nested call holds one frame
  of the call stack, and the engine throws \<^verbatim>\<open>RangeError\<close> when the stack is used up.
  The number of frames that are free at the call is the first argument.
\<close>

datatype js_error = RangeError

fun sum_to_n_b :: "nat \<Rightarrow> number \<Rightarrow> js_error + number" where
  "sum_to_n_b 0 n0 = Inl RangeError"
| "sum_to_n_b (Suc frames) n0 =
     (let n = Math_trunc n0
      in if js_eq n (Finite 1) then Inr (Finite 1)
         else if js_gt n (Finite 1)
         then (case sum_to_n_b frames (js_sub n (Finite 1)) of
                 Inl err \<Rightarrow> Inl err
               | Inr r \<Rightarrow> Inr (js_add n r))
         else (case sum_to_n_b frames (js_add n (Finite 1)) of
                 Inl err \<Rightarrow> Inl err
               | Inr r \<Rightarrow> Inr (js_add n r)))"

text \<open>The argument of the recursive call of \<^verbatim>\<open>sum_to_n_b\<close> away from the base case.\<close>

definition sum_to_n_b_next :: "number \<Rightarrow> number" where
  "sum_to_n_b_next n = (if js_gt n (Finite 1) then js_sub n (Finite 1) else js_add n (Finite 1))"

definition sum_to_n_c :: "number \<Rightarrow> halved" where
  "sum_to_n_c n0 =
     (let n = Math_trunc n0
      in if js_ge n (Finite 1) then js_half (js_mul n (js_add n (Finite 1)))
         else (let count = js_sub (Finite 2) n
               in js_half (js_mul (js_add n (Finite 1)) count)))"

subsection \<open>The sum as the claims state it\<close>

text \<open>
  The sum of all integers from \<open>min n 1\<close> to \<open>max n 1\<close>, in exact integer arithmetic,
  and the assumption of the source's header that it fits within
  \<^verbatim>\<open>Number.MAX_SAFE_INTEGER\<close>.
\<close>

definition sum_min_max :: "int \<Rightarrow> int" where
  "sum_min_max n = (\<Sum>k = min n 1..max n 1. k)"


definition safe :: "int \<Rightarrow> bool" where
  "safe n = (\<bar>sum_min_max n\<bar> \<le> MAX_SAFE_INTEGER)"

section \<open>Problem 5: the resource controller\<close>

text \<open>
  A value of a JSON request body field or of an entity column as JavaScript sees it:
  absent (\<^verbatim>\<open>undefined\<close>), \<^verbatim>\<open>null\<close>, or a proper value. TypeScript's
  annotations are not enforced at run time, so a field holds whatever was assigned.
\<close>

datatype jsval = Undefined | Null | Str string | Num int | Bool bool

text \<open>The nullish coalescing operator \<^verbatim>\<open>a ?? b\<close>.\<close>

definition nullish :: "jsval \<Rightarrow> jsval \<Rightarrow> jsval" where
  "nullish a b = (case a of Undefined \<Rightarrow> b | Null \<Rightarrow> b | _ \<Rightarrow> a)"

text \<open>The entity \<^verbatim>\<open>Resource\<close> of \<^verbatim>\<open>models/resource.ts\<close>.\<close>

record resource =
  id_col :: int   \<comment> \<open>the column \<^verbatim>\<open>id\<close>\<close>
  name :: jsval
  description :: jsval

text \<open>The fields that \<^verbatim>\<open>updateResource\<close> destructures from \<^verbatim>\<open>req.body\<close>.\<close>

record update_body =
  body_name :: jsval
  body_description :: jsval

text \<open>
  The table is the list of its rows. \<^verbatim>\<open>findOneBy({ id })\<close> yields the first row with
  that primary key, or \<^verbatim>\<open>null\<close> (here \<open>None\<close>); \<^verbatim>\<open>save()\<close> on a loaded entity
  writes its columns to the row with the entity's primary key.
\<close>

definition findOneBy :: "resource list \<Rightarrow> int \<Rightarrow> resource option" where
  "findOneBy rows i = find (\<lambda>r. id_col r = i) rows"

definition save :: "resource list \<Rightarrow> resource \<Rightarrow> resource list" where
  "save rows r =
     (if \<exists>x \<in> set rows. id_col x = id_col r then map (\<lambda>x. if id_col x = id_col r then r else x) rows
      else rows @ [r])"

text \<open>The two awaited database calls of \<^verbatim>\<open>updateResource\<close>; either may throw.\<close>

datatype db_call = FindCall | SaveCall

datatype resource_reply =
    Reply_resource resource       \<comment> \<open>\<^verbatim>\<open>res.json(resource)\<close>, status 200\<close>
  | Reply_not_found               \<comment> \<open>status 404, \<^verbatim>\<open>{ error: "Not found" }\<close>\<close>
  | Reply_update_failed           \<comment> \<open>status 500, \<^verbatim>\<open>{ error: "Update failed" }\<close>\<close>

text \<open>
  \<^verbatim>\<open>updateResource\<close>: the route parameter is given after \<^verbatim>\<open>Number(id)\<close>; \<open>fails\<close>
  tells which database calls throw in this run. It returns the table afterwards and the reply.
\<close>

definition updateResource ::
  "(db_call \<Rightarrow> bool) \<Rightarrow> int \<Rightarrow> update_body \<Rightarrow> resource list \<Rightarrow> resource list \<times> resource_reply" where
  "updateResource fails i body rows =
     (if fails FindCall then (rows, Reply_update_failed)
      else case findOneBy rows i of
        None \<Rightarrow> (rows, Reply_not_found)
      | Some resource \<Rightarrow>
          (let resource1 = resource\<lparr>name := nullish (body_name body) (name resource)\<rparr>;
               resource2 = resource1\<lparr>description :=
                              nullish (body_description body) (description resource1)\<rparr>
           in if fails SaveCall then (rows, Reply_update_failed)
              else (save rows resource2, Reply_resource resource2)))"

section \<open>Problem 6: the action completion handler\<close>

text \<open>
  The handler \<^verbatim>\<open>completeAction\<close> and the scorer \<^verbatim>\<open>detectAnomalies\<close> are given in the
  repository as TypeScript listings inside its design notes, over the SQL schema of the
  architecture document. Identifiers and addresses are strings; a time is a number of
  milliseconds, as \<^verbatim>\<open>Date.now()\<close> returns it.
\<close>

type_synonym uuid = string
type_synonym ip = string
type_synonym millis = int

subsection \<open>Tables\<close>

text \<open>A row of \<^verbatim>\<open>actions\<close>, keyed by its id. The handler reads \<^verbatim>\<open>scoreReward\<close> only.\<close>

record action =
  scoreReward :: int
  cooldown_seconds :: int

text \<open>
  A row of \<^verbatim>\<open>users\<close>, keyed by its id. The columns \<^verbatim>\<open>username\<close>, \<^verbatim>\<open>email\<close> and
  \<^verbatim>\<open>password_hash\<close> are never read or written by the two listings and are left out.
\<close>

record user_row =
  total_score :: int
  created_at :: millis
  updated_at :: millis

record completion =
  completion_id :: uuid
  user_id :: uuid
  action_id :: uuid
  score_earned :: int
  completed_at :: millis
  client_ip :: ip

record audit_log =
  audit_id :: uuid
  audit_user_id :: uuid
  audit_action_id :: uuid
  score_delta :: int
  score_before :: int
  score_after :: int
  change_type :: string
  details_suspicious :: bool   \<comment> \<open>\<^verbatim>\<open>details\<close> is \<^verbatim>\<open>JSON.stringify({ suspicious })\<close>\<close>
  audit_timestamp :: millis

record database =
  actions :: "uuid \<rightharpoonup> action"
  users :: "uuid \<rightharpoonup> user_row"
  user_action_completions :: "completion list"
  score_audit_logs :: "audit_log list"

text \<open>
  The Redis keys the handler touches: \<^verbatim>\<open>leaderboard:top10\<close> (an opaque cached value)
  and \<^verbatim>\<open>user:<id>:score\<close>. Expiry of keys is not modelled.
\<close>

record cache =
  leaderboard_top10 :: "string option"
  user_score :: "uuid \<rightharpoonup> int"

text \<open>The payload of a \<^verbatim>\<open>leaderboard:update\<close> broadcast.\<close>

record leaderboard_update =
  update_userId :: uuid
  update_newScore :: int
  update_scoreAdded :: int
  update_timestamp :: millis

record world =
  db :: database
  redis :: cache
  emitted :: "leaderboard_update list"   \<comment> \<open>broadcasts so far, oldest first\<close>

subsection \<open>One request and its environment\<close>

text \<open>
  What the handler reads of the request: \<^verbatim>\<open>req.userId\<close> (set from the token),
  \<^verbatim>\<open>req.body.actionId\<close> and \<^verbatim>\<open>req.ip\<close>. No other field of the body is read.
\<close>

record request =
  req_userId :: uuid
  body_actionId :: uuid
  req_ip :: ip

text \<open>
  The operations of the handler that can throw, in program order; the last two are
  \<^verbatim>\<open>rollbackTransaction\<close> in the \<^verbatim>\<open>catch\<close> block and \<^verbatim>\<open>release\<close> in the
  \<^verbatim>\<open>finally\<close> block.
\<close>

datatype step =
    FindAction | FindLastCompletion | Connect | StartTransaction
  | SelectUser | SuspiciousCheck | UpdateUser | InsertCompletion | InsertAudit | Commit
  | RedisDel | RedisSet | Emit
  | Rollback | Release

text \<open>
  What one run of the handler takes from outside: the three clock readings
  (\<^verbatim>\<open>Date.now()\<close> at the cooldown check, SQL \<^verbatim>\<open>NOW()\<close> inside the transaction,
  \<^verbatim>\<open>new Date()\<close> at the broadcast), the two generated row ids, the function
  \<^verbatim>\<open>isSuspiciousJump\<close> (not part of the repository), and which operations throw in this
  run, for whatever reason (connection loss, a violated constraint, a full disk).
\<close>

record env =
  date_now :: millis
  sql_now :: millis
  emit_date :: millis
  uuid_completion :: uuid
  uuid_audit :: uuid
  isSuspiciousJump :: "uuid \<Rightarrow> int \<Rightarrow> int \<Rightarrow> action \<Rightarrow> bool"
  throws :: "step \<Rightarrow> bool"

datatype reply_body =
    Error_body string
  | Cooldown_body string millis               \<comment> \<open>\<^verbatim>\<open>error\<close>, \<^verbatim>\<open>nextAvailableAt\<close>\<close>
  | Success_body int int bool                 \<comment> \<open>\<^verbatim>\<open>newScore\<close>, \<^verbatim>\<open>scoreAdded\<close>, \<^verbatim>\<open>flaggedForReview\<close>\<close>

text \<open>
  How a run of the handler ends: with a reply; with no reply, because an operation threw
  where nothing catches it and the handler's promise rejects; or with a reply that was
  sent before \<^verbatim>\<open>release\<close> threw in the \<^verbatim>\<open>finally\<close> block.
\<close>

datatype outcome =
    Json nat reply_body                      \<comment> \<open>\<^verbatim>\<open>res.status(n).json(body)\<close>\<close>
  | Unhandled step                           \<comment> \<open>no reply; the operation that threw last\<close>
  | Json_then_unhandled nat reply_body step  \<comment> \<open>the reply, then the operation that threw\<close>

subsection \<open>The cooldown gate\<close>

text \<open>
  \<^verbatim>\<open>findOne({ where: { userId, actionId }, order: { completedAt: "DESC" } })\<close>: among the
  matching rows, one with the greatest \<^verbatim>\<open>completedAt\<close>.
\<close>

fun latest :: "completion list \<Rightarrow> completion option" where
  "latest [] = None"
| "latest (c # cs) =
     (case latest cs of
        None \<Rightarrow> Some c
      | Some b \<Rightarrow> if completed_at c < completed_at b then Some b else Some c)"

definition lastCompletion :: "database \<Rightarrow> uuid \<Rightarrow> uuid \<Rightarrow> completion option" where
  "lastCompletion d userId actionId =
     latest (filter (\<lambda>c. user_id c = userId \<and> action_id c = actionId)
               (user_action_completions d))"

datatype gate_result =
    Gate_pass action
  | Gate_stop outcome

text \<open>
  The part of \<^verbatim>\<open>completeAction\<close> before \<^verbatim>\<open>try\<close>: the action lookup, the cooldown check
  against the constant 5000, and the opening of the transaction.
\<close>

definition gate :: "env \<Rightarrow> request \<Rightarrow> world \<Rightarrow> gate_result" where
  "gate e req w =
     (if throws e FindAction then Gate_stop (Unhandled FindAction)
      else case actions (db w) (body_actionId req) of
        None \<Rightarrow> Gate_stop (Json 400 (Error_body ''Invalid action''))
      | Some a \<Rightarrow>
          if throws e FindLastCompletion then Gate_stop (Unhandled FindLastCompletion)
          else case lastCompletion (db w) (req_userId req) (body_actionId req) of
            Some lc \<Rightarrow>
              if date_now e - completed_at lc < 5000
              then Gate_stop (Json 409 (Cooldown_body ''Action on cooldown'' (completed_at lc + 5000)))
              else if throws e Connect then Gate_stop (Unhandled Connect)
              else if throws e StartTransaction then Gate_stop (Unhandled StartTransaction)
              else Gate_pass a
          | None \<Rightarrow>
              if throws e Connect then Gate_stop (Unhandled Connect)
              else if throws e StartTransaction then Gate_stop (Unhandled StartTransaction)
              else Gate_pass a)"

subsection \<open>The transaction\<close>

text \<open>
  The statements between \<^verbatim>\<open>startTransaction\<close> and \<^verbatim>\<open>commitTransaction\<close>. They work on
  the transaction's own view of the database; the result is \<open>Inr\<close> with the committed
  database, or \<open>Inl\<close> with the operation that threw. In that case the transaction is
  still open and nothing of its view is ever kept: the rollback discards it, and so does
  the database when the rollback fails. \<^verbatim>\<open>user[0].total_score\<close> throws when no row was
  selected.
\<close>

definition transaction ::
  "env \<Rightarrow> request \<Rightarrow> action \<Rightarrow> database \<Rightarrow> step + (database \<times> int \<times> bool)" where
  "transaction e req a d =
     (if throws e SelectUser then Inl SelectUser
      else case users d (req_userId req) of
        None \<Rightarrow> Inl SelectUser
      | Some u \<Rightarrow>
          (let oldScore = total_score u;
               newScore = oldScore + scoreReward a
           in if throws e SuspiciousCheck then Inl SuspiciousCheck
              else let isProbable = isSuspiciousJump e (req_userId req) newScore oldScore a
              in if throws e UpdateUser then Inl UpdateUser
              else let d1 = d\<lparr>users := (users d)(req_userId req \<mapsto>
                                  u\<lparr>total_score := newScore, updated_at := sql_now e\<rparr>)\<rparr>
              in if throws e InsertCompletion then Inl InsertCompletion
              else let d2 = d1\<lparr>user_action_completions := user_action_completions d1 @
                                 [\<lparr>completion_id = uuid_completion e, user_id = req_userId req,
                                   action_id = body_actionId req, score_earned = scoreReward a,
                                   completed_at = sql_now e, client_ip = req_ip req\<rparr>]\<rparr>
              in if throws e InsertAudit then Inl InsertAudit
              else let d3 = d2\<lparr>score_audit_logs := score_audit_logs d2 @
                                 [\<lparr>audit_id = uuid_audit e, audit_user_id = req_userId req,
                                   audit_action_id = body_actionId req,
                                   score_delta = scoreReward a, score_before = oldScore,
                                   score_after = newScore, change_type = ''action'',
                                   details_suspicious = isProbable,
                                   audit_timestamp = sql_now e\<rparr>]\<rparr>
              in if throws e Commit then Inl Commit
              else Inr (d3, newScore, isProbable)))"

subsection \<open>The catch and finally blocks\<close>

text \<open>
  \<^verbatim>\<open>finally { await queryRunner.release(); }\<close> runs after the \<^verbatim>\<open>try\<close> and the
  \<^verbatim>\<open>catch\<close> block, whatever they did. A reply that was sent stays sent; if
  \<^verbatim>\<open>release\<close> throws, the handler's promise rejects with that error.
\<close>

definition finally_release :: "env \<Rightarrow> outcome \<Rightarrow> outcome" where
  "finally_release e out =
     (if throws e Release
      then (case out of
              Json n body \<Rightarrow> Json_then_unhandled n body Release
            | Unhandled s \<Rightarrow> Unhandled Release
            | Json_then_unhandled n body s \<Rightarrow> Json_then_unhandled n body Release)
      else out)"

text \<open>
  The \<^verbatim>\<open>catch\<close> block awaits \<^verbatim>\<open>rollbackTransaction()\<close> before it replies. With the
  transaction still open the rollback discards its writes, unless the rollback throws
  itself. After \<^verbatim>\<open>commitTransaction\<close> has succeeded no transaction is open, and
  \<^verbatim>\<open>rollbackTransaction\<close> of the query runner throws
  \<^verbatim>\<open>TransactionNotStartedError\<close>. In both throwing cases \<^verbatim>\<open>res.status(500)\<close> is never
  reached. The argument tells whether the transaction is still open.
\<close>

definition catch_block :: "env \<Rightarrow> bool \<Rightarrow> outcome" where
  "catch_block e transaction_open =
     finally_release e
       (if transaction_open \<and> \<not> throws e Rollback
        then Json 500 (Error_body ''Failed to update score'')
        else Unhandled Rollback)"

subsection \<open>After the commit\<close>

text \<open>
  The cache update, the broadcast and the reply. They stand inside the same \<^verbatim>\<open>try\<close>, so
  a throw here also reaches the \<^verbatim>\<open>catch\<close> block, with no transaction open any more.
\<close>

definition after_commit ::
  "env \<Rightarrow> request \<Rightarrow> action \<Rightarrow> int \<Rightarrow> bool \<Rightarrow> world \<Rightarrow> world \<times> outcome" where
  "after_commit e req a newScore isProbable w =
     (if throws e RedisDel then (w, catch_block e False)
      else let w1 = w\<lparr>redis := (redis w)\<lparr>leaderboard_top10 := None\<rparr>\<rparr>
      in if throws e RedisSet then (w1, catch_block e False)
      else let w2 = w1\<lparr>redis := (redis w1)\<lparr>user_score :=
                          (user_score (redis w1))(req_userId req \<mapsto> newScore)\<rparr>\<rparr>
      in if throws e Emit then (w2, catch_block e False)
      else let w3 = w2\<lparr>emitted := emitted w2 @
                          [\<lparr>update_userId = req_userId req, update_newScore = newScore,
                            update_scoreAdded = scoreReward a, update_timestamp = emit_date e\<rparr>]\<rparr>
      in (w3, finally_release e (Json 200 (Success_body newScore (scoreReward a) isProbable))))"

subsection \<open>The handler\<close>

definition completeAction :: "env \<Rightarrow> request \<Rightarrow> world \<Rightarrow> world \<times> outcome" where
  "completeAction e req w =
     (case gate e req w of
        Gate_stop out \<Rightarrow> (w, out)
      | Gate_pass a \<Rightarrow>
          (case transaction e req a (db w) of
             Inl failed \<Rightarrow> (w, catch_block e True)
           | Inr (d, newScore, isProbable) \<Rightarrow>
               after_commit e req a newScore isProbable (w\<lparr>db := d\<rparr>)))"

subsection \<open>The effect of a committed transaction\<close>

text \<open>The operations between \<^verbatim>\<open>startTransaction\<close> and the end of \<^verbatim>\<open>commitTransaction\<close>.\<close>

definition transaction_steps :: "step list" where
  "transaction_steps = [SelectUser, SuspiciousCheck, UpdateUser, InsertCompletion, InsertAudit, Commit]"

text \<open>
  The database after the three writes of the transaction, for the user row \<open>u\<close> that the
  \<^verbatim>\<open>SELECT\<close> returned: the new score and \<^verbatim>\<open>updated_at\<close>, the completion row, the
  audit row.
\<close>

definition committed_db :: "env \<Rightarrow> request \<Rightarrow> action \<Rightarrow> user_row \<Rightarrow> database \<Rightarrow> database" where
  "committed_db e req a u d =
     d\<lparr>users := (users d)(req_userId req \<mapsto>
                   u\<lparr>total_score := total_score u + scoreReward a, updated_at := sql_now e\<rparr>),
       user_action_completions := user_action_completions d @
          [\<lparr>completion_id = uuid_completion e, user_id = req_userId req,
            action_id = body_actionId req, score_earned = scoreReward a,
            completed_at = sql_now e, client_ip = req_ip req\<rparr>],
       score_audit_logs := score_audit_logs d @
          [\<lparr>audit_id = uuid_audit e, audit_user_id = req_userId req,
            audit_action_id = body_actionId req, score_delta = scoreReward a,
            score_before = total_score u, score_after = total_score u + scoreReward a,
            change_type = ''action'',
            details_suspicious = isSuspiciousJump e (req_userId req)
                                   (total_score u + scoreReward a) (total_score u) a,
            audit_timestamp = sql_now e\<rparr>]\<rparr>"

subsection \<open>A scenario\<close>

text \<open>
  User \<open>u1\<close> with score 0 and two registered actions. In \<open>example_env t\<close> the handler
  runs at time \<open>t\<close>, the database clock reads \<open>t + 2\<close>, the broadcast is stamped \<open>t + 5\<close>,
  and nothing throws.
\<close>

definition example_world :: world where
  "example_world =
     \<lparr>db = \<lparr>actions = [''a1'' \<mapsto> \<lparr>scoreReward = 50, cooldown_seconds = 30\<rparr>,
                         ''a2'' \<mapsto> \<lparr>scoreReward = 30, cooldown_seconds = 0\<rparr>],
            users = [''u1'' \<mapsto> \<lparr>total_score = 0, created_at = 1000, updated_at = 1000\<rparr>],
            user_action_completions = [], score_audit_logs = []\<rparr>,
      redis = \<lparr>leaderboard_top10 = Some ''cached'', user_score = Map.empty\<rparr>,
      emitted = []\<rparr>"

definition example_request :: request where
  "example_request = \<lparr>req_userId = ''u1'', body_actionId = ''a1'', req_ip = ''10.0.0.1''\<rparr>"

definition example_env :: "millis \<Rightarrow> env" where
  "example_env t =
     \<lparr>date_now = t, sql_now = t + 2, emit_date = t + 5,
      uuid_completion = ''c1'', uuid_audit = ''l1'',
      isSuspiciousJump = (\<lambda>userId newScore oldScore a. False),
      throws = (\<lambda>s. False)\<rparr>"

subsection \<open>Submissions in flight together\<close>

text \<open>
  Several runs of the handler for the same user overlap in time. A run is suspended at its
  \<^verbatim>\<open>await\<close>s, so between two of its parts other runs may proceed. Its parts are the
  gate, the transaction and the work after the commit. The transaction is one indivisible
  part: \<^verbatim>\<open>SELECT ... FOR UPDATE\<close> holds the user's row until the commit or rollback, so
  no other transaction on the same user's row runs in between. The work after the commit
  touches the cache and the broadcasts only, never the database.
\<close>

datatype phase =
    Received
  | Gated action
  | Committed action int bool      \<comment> \<open>the action, \<^verbatim>\<open>newScore\<close>, \<^verbatim>\<open>isProbable\<close>\<close>
  | Finished outcome

fun advance :: "env \<Rightarrow> request \<Rightarrow> phase \<Rightarrow> world \<Rightarrow> phase \<times> world" where
  "advance e req Received w =
     (case gate e req w of
        Gate_pass a \<Rightarrow> (Gated a, w)
      | Gate_stop out \<Rightarrow> (Finished out, w))"
| "advance e req (Gated a) w =
     (case transaction e req a (db w) of
        Inl failed \<Rightarrow> (Finished (catch_block e True), w)
      | Inr (d, newScore, isProbable) \<Rightarrow> (Committed a newScore isProbable, w\<lparr>db := d\<rparr>))"
| "advance e req (Committed a newScore isProbable) w =
     (case after_commit e req a newScore isProbable w of (w', out) \<Rightarrow> (Finished out, w'))"
| "advance e req (Finished out) w = (Finished out, w)"

text \<open>
  A schedule is the list of the runs' indices in the order in which they take their next
  part; every interleaving of the runs is a schedule.
\<close>

definition schedule_step ::
  "(env \<times> request) list \<Rightarrow> nat \<Rightarrow> phase list \<times> world \<Rightarrow> phase list \<times> world" where
  "schedule_step subs i cfg =
     (if i < length subs \<and> i < length (fst cfg)
      then (case advance (fst (subs ! i)) (snd (subs ! i)) (fst cfg ! i) (snd cfg) of
              (ph, w') \<Rightarrow> ((fst cfg)[i := ph], w'))
      else cfg)"

definition run_schedule ::
  "(env \<times> request) list \<Rightarrow> nat list \<Rightarrow> world \<Rightarrow> phase list \<times> world" where
  "run_schedule subs sched w = fold (schedule_step subs) sched (replicate (length subs) Received, w)"

text \<open>The reward that the action named by a request has in the \<^verbatim>\<open>actions\<close> table.\<close>

definition reward_of :: "world \<Rightarrow> request \<Rightarrow> int" where
  "reward_of w req =
     (case actions (db w) (body_actionId req) of Some a \<Rightarrow> scoreReward a | None \<Rightarrow> 0)"

text \<open>How many of its parts a run has behind it.\<close>

fun stage :: "phase \<Rightarrow> nat" where
  "stage Received = 0"
| "stage (Gated a) = 1"
| "stage (Committed a newScore isProbable) = 2"
| "stage (Finished out) = 3"

text \<open>
  What a run has added to the user's score and to the completion rows so far: its reward
  and one row once its transaction is committed, nothing before.
\<close>

definition applied_reward :: "world \<Rightarrow> env \<times> request \<Rightarrow> phase \<Rightarrow> int" where
  "applied_reward w0 s ph = (if 2 \<le> stage ph then reward_of w0 (snd s) else 0)"

definition applied_count :: "phase \<Rightarrow> int" where
  "applied_count ph = (if 2 \<le> stage ph then 1 else 0)"

text \<open>
  What is known of a run in each phase when nothing throws: the action it carries is the
  one registered under the request's id, and it finishes with reply 200.
\<close>

fun phase_ok :: "world \<Rightarrow> request \<Rightarrow> phase \<Rightarrow> bool" where
  "phase_ok w0 req Received = True"
| "phase_ok w0 req (Gated a) = (actions (db w0) (body_actionId req) = Some a)"
| "phase_ok w0 req (Committed a newScore isProbable) = (actions (db w0) (body_actionId req) = Some a)"
| "phase_ok w0 req (Finished out) =
     (\<exists>newScore isProbable. out = Json 200 (Success_body newScore (reward_of w0 req) isProbable))"

text \<open>
  The state of the runs and of the world after a schedule \<open>sched\<close>, for runs of one user
  \<open>u\<close> whose row was \<open>usr\<close> in the starting world \<open>w0\<close>: every run is as far as its
  number of turns says, the stored score is the starting score plus the rewards of the
  committed runs, and the completion rows are the old ones followed by one row per
  committed run.
\<close>

definition run_invariant ::
  "(env \<times> request) list \<Rightarrow> uuid \<Rightarrow> user_row \<Rightarrow> world \<Rightarrow> nat list \<Rightarrow> phase list \<times> world \<Rightarrow> bool" where
  "run_invariant subs u usr w0 sched cfg =
     (length (fst cfg) = length subs
      \<and> actions (db (snd cfg)) = actions (db w0)
      \<and> (\<forall>i < length subs. phase_ok w0 (snd (subs ! i)) (fst cfg ! i)
             \<and> stage (fst cfg ! i) = min 3 (count_list sched i))
      \<and> (\<exists>usr'. users (db (snd cfg)) u = Some usr'
             \<and> total_score usr' = total_score usr
                  + (\<Sum>i = 0..<length subs. applied_reward w0 (subs ! i) (fst cfg ! i)))
      \<and> (\<exists>added. user_action_completions (db (snd cfg))
                     = user_action_completions (db w0) @ added
             \<and> int (length added) = (\<Sum>i = 0..<length subs. applied_count (fst cfg ! i))
             \<and> (\<forall>c \<in> set added. \<exists>i < length subs. 2 \<le> stage (fst cfg ! i)
                    \<and> action_id c = body_actionId (snd (subs ! i)))))"

text \<open>Two submissions of the scenario's user, for the two different actions.\<close>

definition example_submissions :: "(env \<times> request) list" where
  "example_submissions =
     [(example_env 10000, example_request),
      (example_env 10001, example_request\<lparr>body_actionId := ''a2''\<rparr>)]"

section \<open>Problem 6: anomaly detection\<close>

text \<open>
  \<^verbatim>\<open>detectAnomalies(userId, newScore, actionReward)\<close> awaits five helpers that the
  repository does not contain, and reads \<^verbatim>\<open>Date.now()\<close> and \<^verbatim>\<open>req.ip\<close>. They are the
  fields of \<open>scorer_reads\<close>.
\<close>

record scorer_reads =
  getUserScoreHistory :: "uuid \<Rightarrow> nat \<Rightarrow> int list"
  findUserById :: "uuid \<Rightarrow> user_row option"
  getActionCount :: "uuid \<Rightarrow> nat \<Rightarrow> int"
  getLastClientIP :: "uuid \<Rightarrow> ip option"
  geolocate :: "ip \<Rightarrow> string"
  scorer_date_now :: millis
  scorer_req_ip :: ip

text \<open>The pushed reason strings, by their template and the values filled in.\<close>

datatype reason =
    Exceptional_reward int "rat option"
  | New_account
  | High_action_frequency int
  | Geographic_change string string

record anomaly_report =
  isSuspicious :: bool
  anomalyScore :: int
  reasons :: "reason list"

datatype scorer_error = TypeError   \<comment> \<open>\<^verbatim>\<open>user.createdAt\<close> on \<^verbatim>\<open>null\<close>\<close>

text \<open>
  \<^verbatim>\<open>userHistory.reduce((a, b) => a + b, 0) / userHistory.length\<close>. On an empty history
  this is \<^verbatim>\<open>0 / 0\<close>, that is \<^verbatim>\<open>NaN\<close>, here \<open>None\<close>; a comparison with \<^verbatim>\<open>NaN\<close> is
  false. The quotient is taken exactly, without the rounding of doubles.
\<close>

definition avgReward :: "int list \<Rightarrow> rat option" where
  "avgReward userHistory =
     (if userHistory = [] then None
      else Some (of_int (sum_list userHistory) / of_int (int (length userHistory))))"

text \<open>\<^verbatim>\<open>anomalyScore += points; reasons.push(r)\<close> on the pair of the two variables.\<close>

definition flag :: "int \<Rightarrow> reason \<Rightarrow> int \<times> reason list \<Rightarrow> int \<times> reason list" where
  "flag points r st = (fst st + points, snd st @ [r])"

text \<open>
  The four blocks of the listing, \<^verbatim>\<open>Check 1\<close> to \<^verbatim>\<open>Check 4\<close>, each as an update of
  the two variables. \<^verbatim>\<open>lastIP && ...\<close> is false for \<^verbatim>\<open>null\<close> and for the empty string.
\<close>

definition check_score_jump ::
  "scorer_reads \<Rightarrow> uuid \<Rightarrow> int \<Rightarrow> int \<times> reason list \<Rightarrow> int \<times> reason list" where
  "check_score_jump rd userId actionReward st =
     (let userHistory = getUserScoreHistory rd userId 10
      in case avgReward userHistory of
           None \<Rightarrow> st
         | Some avg \<Rightarrow>
             if of_int actionReward > avg * 5
             then flag 30 (Exceptional_reward actionReward (Some avg)) st
             else st)"

definition check_new_user ::
  "scorer_reads \<Rightarrow> user_row \<Rightarrow> int \<times> reason list \<Rightarrow> int \<times> reason list" where
  "check_new_user rd user st =
     (if scorer_date_now rd - created_at user < 24 * 60 * 60 * 1000
      then flag 20 New_account st
      else st)"

definition check_action_rate ::
  "scorer_reads \<Rightarrow> uuid \<Rightarrow> int \<times> reason list \<Rightarrow> int \<times> reason list" where
  "check_action_rate rd userId st =
     (let actionsLast5Min = getActionCount rd userId 300
      in if actionsLast5Min > 20
         then flag 40 (High_action_frequency actionsLast5Min) st
         else st)"

definition check_geographic ::
  "scorer_reads \<Rightarrow> uuid \<Rightarrow> int \<times> reason list \<Rightarrow> int \<times> reason list" where
  "check_geographic rd userId st =
     (case getLastClientIP rd userId of
        None \<Rightarrow> st
      | Some lastIP \<Rightarrow>
          if lastIP \<noteq> [] \<and> lastIP \<noteq> scorer_req_ip rd
          then (let country1 = geolocate rd lastIP;
                    country2 = geolocate rd (scorer_req_ip rd)
                in if country1 \<noteq> country2
                   then flag 25 (Geographic_change country1 country2) st
                   else st)
          else st)"

text \<open>
  The listing as a whole. The user is looked up after the first check, and
  \<^verbatim>\<open>user.createdAt\<close> throws when there is no such user. The parameter \<^verbatim>\<open>newScore\<close> is
  never read.
\<close>

definition detectAnomalies ::
  "scorer_reads \<Rightarrow> uuid \<Rightarrow> int \<Rightarrow> int \<Rightarrow> scorer_error + anomaly_report" where
  "detectAnomalies rd userId newScore actionReward =
     (let st1 = check_score_jump rd userId actionReward (0, [])
      in case findUserById rd userId of
        None \<Rightarrow> Inl TypeError
      | Some user \<Rightarrow>
          (let st2 = check_new_user rd user st1;
               st3 = check_action_rate rd userId st2;
               st4 = check_geographic rd userId st3
           in Inr \<lparr>isSuspicious = (fst st4 > 70), anomalyScore = fst st4, reasons = snd st4\<rparr>))"

text \<open>
  When each check fires, stated on what the scorer reads: the reward is more than five
  times the average of the last ten rewards; the account is younger than 24 hours; more
  than 20 actions were counted in the last 300 seconds; the last client address is known,
  differs from the request's, and lies in another country.
\<close>

definition score_jump_too_large :: "scorer_reads \<Rightarrow> uuid \<Rightarrow> int \<Rightarrow> bool" where
  "score_jump_too_large rd userId actionReward =
     (let h = getUserScoreHistory rd userId 10
      in h \<noteq> [] \<and> of_int actionReward * of_int (int (length h)) > (of_int (sum_list h) * 5 :: rat))"

definition user_too_new :: "scorer_reads \<Rightarrow> uuid \<Rightarrow> bool" where
  "user_too_new rd userId =
     (case findUserById rd userId of
        None \<Rightarrow> False
      | Some user \<Rightarrow> scorer_date_now rd < created_at user + 86400000)"

definition rate_too_high :: "scorer_reads \<Rightarrow> uuid \<Rightarrow> bool" where
  "rate_too_high rd userId = (20 < getActionCount rd userId 300)"

definition geographic_anomaly :: "scorer_reads \<Rightarrow> uuid \<Rightarrow> bool" where
  "geographic_anomaly rd userId =
     (case getLastClientIP rd userId of
        None \<Rightarrow> False
      | Some lastIP \<Rightarrow>
          lastIP \<noteq> [] \<and> lastIP \<noteq> scorer_req_ip rd
          \<and> geolocate rd lastIP \<noteq> geolocate rd (scorer_req_ip rd))"

text \<open>The weight of a check: its points if it fires, else nothing.\<close>

definition weight :: "bool \<Rightarrow> int \<Rightarrow> int" where
  "weight fires points = (if fires then points else 0)"

text \<open>
  A scenario for the scorer: user \<open>u1\<close>, created at time 1000, with two earlier rewards of
  10, 21 actions in the last five minutes, last seen from an address in another country
  than every other address. The clock and the request's address are left open.
\<close>

definition example_reads :: "millis \<Rightarrow> ip \<Rightarrow> scorer_reads" where
  "example_reads t addr =
     \<lparr>getUserScoreHistory = (\<lambda>userId n. [10, 10]),
      findUserById = (\<lambda>userId. if userId = ''u1''
                        then Some \<lparr>total_score = 20, created_at = 1000, updated_at = 2000\<rparr>
                        else None),
      getActionCount = (\<lambda>userId seconds. 21),
      getLastClientIP = (\<lambda>userId. Some ''1.1.1.1''),
      geolocate = (\<lambda>a. if a = ''1.1.1.1'' then ''US'' else ''SG''),
      scorer_date_now = t,
      scorer_req_ip = addr\<rparr>"

text \<open>
  The listing once more, with its awaits. Each helper is a call on a state that the
  listing never names (database, cache, network): it may read and change that state,
  and its promise resolves to a value or rejects. An \<^verbatim>\<open>await\<close> on a rejected promise
  rejects the promise of \<^verbatim>\<open>detectAnomalies\<close> at that point, and nothing after it runs.
\<close>

datatype 'a awaited = Resolved 'a | Rejected

datatype scorer_call = GetUserScoreHistory | FindById | GetActionCount | GetLastClientIP | Geolocate

record 's scorer_helpers =
  await_getUserScoreHistory :: "uuid \<Rightarrow> nat \<Rightarrow> 's \<Rightarrow> int list awaited \<times> 's"
  await_findById :: "uuid \<Rightarrow> 's \<Rightarrow> user_row option awaited \<times> 's"
  await_getActionCount :: "uuid \<Rightarrow> nat \<Rightarrow> 's \<Rightarrow> int awaited \<times> 's"
  await_getLastClientIP :: "uuid \<Rightarrow> 's \<Rightarrow> ip option awaited \<times> 's"
  await_geolocate :: "ip \<Rightarrow> 's \<Rightarrow> string awaited \<times> 's"

text \<open>
  How the promise of \<^verbatim>\<open>detectAnomalies\<close> rejects: with the rejection of an awaited
  helper, or with the \<^verbatim>\<open>TypeError\<close> of \<^verbatim>\<open>user.createdAt\<close>.
\<close>

datatype scorer_rejection = Rejected_by scorer_call | Thrown scorer_error

text \<open>\<^verbatim>\<open>const v = await call; rest\<close>.\<close>

definition await ::
  "'a awaited \<times> 's \<Rightarrow> scorer_call \<Rightarrow> ('a \<Rightarrow> 's \<Rightarrow> (scorer_rejection + 'b) \<times> 's)
     \<Rightarrow> (scorer_rejection + 'b) \<times> 's" where
  "await call c rest =
     (case call of
        (Rejected, s) \<Rightarrow> (Inl (Rejected_by c), s)
      | (Resolved v, s) \<Rightarrow> rest v s)"

text \<open>The returned object, from the two variables.\<close>

definition report_of :: "int \<times> reason list \<Rightarrow> anomaly_report" where
  "report_of st = \<lparr>isSuspicious = (fst st > 70), anomalyScore = fst st, reasons = snd st\<rparr>"

definition detectAnomalies_async ::
  "'s scorer_helpers \<Rightarrow> millis \<Rightarrow> ip \<Rightarrow> uuid \<Rightarrow> int \<Rightarrow> int \<Rightarrow> 's
     \<Rightarrow> (scorer_rejection + anomaly_report) \<times> 's" where
  "detectAnomalies_async hp now reqIp userId newScore actionReward s0 =
     await (await_getUserScoreHistory hp userId 10 s0) GetUserScoreHistory (\<lambda>userHistory s1.
       let st1 = (case avgReward userHistory of
                    None \<Rightarrow> (0, [])
                  | Some avg \<Rightarrow>
                      if of_int actionReward > avg * 5
                      then flag 30 (Exceptional_reward actionReward (Some avg)) (0, [])
                      else (0, []))
       in await (await_findById hp userId s1) FindById (\<lambda>found s2.
         case found of
           None \<Rightarrow> (Inl (Thrown TypeError), s2)
         | Some user \<Rightarrow>
             let st2 = (if now - created_at user < 24 * 60 * 60 * 1000
                        then flag 20 New_account st1
                        else st1)
             in await (await_getActionCount hp userId 300 s2) GetActionCount (\<lambda>actionsLast5Min s3.
               let st3 = (if actionsLast5Min > 20
                          then flag 40 (High_action_frequency actionsLast5Min) st2
                          else st2)
               in await (await_getLastClientIP hp userId s3) GetLastClientIP (\<lambda>lastSeen s4.
                 case lastSeen of
                   None \<Rightarrow> (Inr (report_of st3), s4)
                 | Some lastIP \<Rightarrow>
                     if lastIP \<noteq> [] \<and> lastIP \<noteq> reqIp
                     then await (await_geolocate hp lastIP s4) Geolocate (\<lambda>country1 s5.
                            await (await_geolocate hp reqIp s5) Geolocate (\<lambda>country2 s6.
                              (Inr (report_of
                                 (if country1 \<noteq> country2
                                  then flag 25 (Geographic_change country1 country2) st3
                                  else st3)), s6)))
                     else (Inr (report_of st3), s4)))))"

text \<open>
  Two kinds of helpers for a table of answers: helpers that answer from the table and
  leave the state alone, and helpers that answer from the table and count their calls in
  the state.
\<close>

definition reading :: "scorer_reads \<Rightarrow> 's scorer_helpers" where
  "reading rd =
     \<lparr>await_getUserScoreHistory = (\<lambda>userId n s. (Resolved (getUserScoreHistory rd userId n), s)),
      await_findById = (\<lambda>userId s. (Resolved (findUserById rd userId), s)),
      await_getActionCount = (\<lambda>userId seconds s. (Resolved (getActionCount rd userId seconds), s)),
      await_getLastClientIP = (\<lambda>userId s. (Resolved (getLastClientIP rd userId), s)),
      await_geolocate = (\<lambda>addr s. (Resolved (geolocate rd addr), s))\<rparr>"

definition counting :: "scorer_reads \<Rightarrow> nat scorer_helpers" where
  "counting rd =
     \<lparr>await_getUserScoreHistory =
        (\<lambda>userId n s. (Resolved (getUserScoreHistory rd userId n), Suc s)),
      await_findById = (\<lambda>userId s. (Resolved (findUserById rd userId), Suc s)),
      await_getActionCount =
        (\<lambda>userId seconds s. (Resolved (getActionCount rd userId seconds), Suc s)),
      await_getLastClientIP = (\<lambda>userId s. (Resolved (getLastClientIP rd userId), Suc s)),
      await_geolocate = (\<lambda>addr s. (Resolved (geolocate rd addr), Suc s))\<rparr>"

section \<open>Properties of the three sums\<close>

lemma to_double_small: "\<bar>x\<bar> \<le> 2 ^ 53 \<Longrightarrow> to_double x = Finite x"
  by (simp add: to_double_def)

lemma bitlen_54:
  assumes "2 ^ 53 \<le> x" "x < 2 ^ 54"
  shows "bitlen x = 54"
proof -
  have pos: "0 < x" using assms(1) by (smt (verit) zero_less_power)
  have b: "2 ^ nat (bitlen x - 1) \<le> x" "x < 2 ^ nat (bitlen x)"
    using bitlen_bounds[OF pos] by auto
  have lo: "(2::int) ^ 53 < 2 ^ nat (bitlen x)" using assms(1) b(2) by linarith
  have 1: "53 < nat (bitlen x)"
    by (rule power_less_imp_less_exp[where a = "2::int"], simp, rule lo)
  have hi: "(2::int) ^ nat (bitlen x - 1) < 2 ^ 54" using assms(2) b(1) by linarith
  have 2: "nat (bitlen x - 1) < 54"
    by (rule power_less_imp_less_exp[where a = "2::int"], simp, rule hi)
  from 1 2 show ?thesis by linarith
qed

lemma to_double_even:
  assumes "even x" "\<bar>x\<bar> < 2 ^ 54"
  shows "to_double x = Finite x"
proof (cases "\<bar>x\<bar> \<le> 2 ^ 53")
  case True
  then show ?thesis by (rule to_double_small)
next
  case False
  then have big: "2 ^ 53 \<le> \<bar>x\<bar>" by simp
  have bl: "bitlen \<bar>x\<bar> = 54" using bitlen_54[OF big assms(2)] .
  have ev: "even \<bar>x\<bar>" using assms(1) by simp
  then have m: "\<bar>x\<bar> mod 2 = 0" by presburger
  have d: "\<bar>x\<bar> div 2 * 2 = \<bar>x\<bar>" using m by presburger
  have small: "\<not> (2::int) ^ 1024 \<le> \<bar>x\<bar>"
  proof -
    have "(2::int) ^ 54 \<le> 2 ^ 1024" by (rule power_increasing) simp_all
    then show ?thesis using assms(2) by linarith
  qed
  have s: "sgn x * \<bar>x\<bar> = x" by (simp add: sgn_if)
  show ?thesis using False
    by (simp add: to_double_def bl Let_def m d small s del: power_numeral)
qed

lemma js_add_exact: "\<bar>a + b\<bar> \<le> 2 ^ 53 \<Longrightarrow> js_add (Finite a) (Finite b) = Finite (a + b)"
  by (simp add: to_double_small)

lemma js_sub_exact: "\<bar>a - b\<bar> \<le> 2 ^ 53 \<Longrightarrow> js_sub (Finite a) (Finite b) = Finite (a - b)"
  by (simp add: js_sub_def to_double_small)

lemma js_mul_even:
  "even (a * b) \<Longrightarrow> \<bar>a * b\<bar> < 2 ^ 54 \<Longrightarrow> js_mul (Finite a) (Finite b) = Finite (a * b)"
  by (simp add: to_double_even)


lemma sum_first: "i \<le> b \<Longrightarrow> (\<Sum>k = i..b. k) = i + (\<Sum>k = i + 1..b. k)" for i b :: int
proof -
  assume le: "i \<le> b"
  have "{i..b} = insert i {i + 1..b}" using le by auto
  then show ?thesis by simp
qed

lemma sum_last: "i \<le> b + 1 \<Longrightarrow> (\<Sum>k = i..b + 1. k) = (\<Sum>k = i..b. k) + (b + 1)" for i b :: int
proof -
  assume le: "i \<le> b + 1"
  have "{i..b + 1} = insert (b + 1) {i..b}" using le by auto
  then show ?thesis by simp
qed

lemma sum_upto_closed: "0 \<le> n \<Longrightarrow> 2 * (\<Sum>k = 1..n. k) = n * (n + 1)" for n :: int
proof (induction n rule: int_ge_induct)
  case base
  show ?case by simp
next
  case (step i)
  then show ?case using sum_last[of 1 i] by (simp add: algebra_simps)
qed

lemma sum_downto_closed: "n \<le> 1 \<Longrightarrow> 2 * (\<Sum>k = n..1. k) = (n + 1) * (2 - n)" for n :: int
proof (induction n rule: int_le_induct)
  case base
  show ?case by simp
next
  case (step i)
  then show ?case using sum_first[of "i - 1" 1] by (simp add: algebra_simps)
qed

lemma sum_min_max_closed:
  "2 * sum_min_max n = (if 1 \<le> n then n * (n + 1) else (n + 1) * (2 - n))"
  using sum_upto_closed[of n] sum_downto_closed[of n]
  by (simp add: sum_min_max_def min_def max_def)

lemma sum_min_max_1: "sum_min_max 1 = 1"
  by (simp add: sum_min_max_def)

lemma sum_min_max_step_up: "1 < n \<Longrightarrow> sum_min_max n = n + sum_min_max (n - 1)"
proof -
  assume gt: "1 < n"
  have a: "sum_min_max n = (\<Sum>k = 1..n. k)" using gt by (simp add: sum_min_max_def)
  have b: "sum_min_max (n - 1) = (\<Sum>k = 1..n - 1. k)" using gt by (simp add: sum_min_max_def)
  show ?thesis using sum_last[of 1 "n - 1"] gt a b by simp
qed

lemma sum_min_max_step_down: "n < 1 \<Longrightarrow> sum_min_max n = n + sum_min_max (n + 1)"
proof -
  assume lt: "n < 1"
  have a: "sum_min_max n = (\<Sum>k = n..1. k)" using lt by (simp add: sum_min_max_def)
  have b: "sum_min_max (n + 1) = (\<Sum>k = n + 1..1. k)" using lt by (simp add: sum_min_max_def)
  show ?thesis using sum_first[of n 1] lt a b by simp
qed

text \<open>Partial sums on the way up lie between 0 and the whole sum.\<close>

lemma partial_up:
  fixes j n :: int
  assumes "j \<le> n"
  shows "0 \<le> (\<Sum>k = 1..j. k)" and "(\<Sum>k = 1..j. k) \<le> (\<Sum>k = 1..n. k)"
proof -
  show "0 \<le> (\<Sum>k = 1..j. k)" by (rule sum_nonneg) simp
  show "(\<Sum>k = 1..j. k) \<le> (\<Sum>k = 1..n. k)"
    by (rule sum_mono2) (use assms in auto)
qed

text \<open>Partial sums on the way down, up to 0, lie between the sum down to 0 and 0.\<close>

lemma partial_down:
  fixes j n :: int
  assumes "j \<le> 0"
  shows "(\<Sum>k = n..j. k) \<le> 0" and "(\<Sum>k = n..0. k) \<le> (\<Sum>k = n..j. k)"
proof -
  show "(\<Sum>k = n..j. k) \<le> 0" by (rule sum_nonpos) (use assms in simp)
  have "(\<Sum>k = n..j. - k) \<le> (\<Sum>k = n..0. - k)"
    by (rule sum_mono2) (use assms in auto)
  then show "(\<Sum>k = n..0. k) \<le> (\<Sum>k = n..j. k)" by (simp add: sum_negf)
qed

lemma sum_to_one: "n \<le> 1 \<Longrightarrow> (\<Sum>k = n..1. k) = (\<Sum>k = n..0. k) + 1" for n :: int
  using sum_last[of n 0] by simp

lemma safe_up_bound:
  assumes "safe n" "1 \<le> n"
  shows "n + 1 \<le> 2 ^ 53" and "n * (n + 1) < 2 ^ 54" and "0 \<le> n * (n + 1)"
proof -
  have c: "n * (n + 1) \<le> 2 * (2 ^ 53 - 1)"
    using assms sum_min_max_closed[of n] by (simp add: safe_def MAX_SAFE_INTEGER_def)
  show "n * (n + 1) < 2 ^ 54" using c by simp
  show "0 \<le> n * (n + 1)" using assms(2) by simp
  show "n + 1 \<le> 2 ^ 53"
  proof (rule ccontr)
    assume "\<not> n + 1 \<le> 2 ^ 53"
    then have big: "2 ^ 53 \<le> n" by simp
    have "2 ^ 53 * 2 \<le> n * (n + 1)" by (rule mult_mono) (use big assms(2) in simp_all)
    then show False using c by simp
  qed
qed

lemma safe_down_bound:
  assumes "safe n" "n < 1"
  shows "2 - n \<le> 2 ^ 53" and "\<bar>(n + 1) * (2 - n)\<bar> < 2 ^ 54"
proof -
  have c: "\<bar>(n + 1) * (2 - n)\<bar> \<le> 2 * (2 ^ 53 - 1)"
    using assms sum_min_max_closed[of n] by (simp add: safe_def MAX_SAFE_INTEGER_def)
  show "\<bar>(n + 1) * (2 - n)\<bar> < 2 ^ 54" using c by simp
  show "2 - n \<le> 2 ^ 53"
  proof (rule ccontr)
    assume "\<not> 2 - n \<le> 2 ^ 53"
    then have big: "2 ^ 53 \<le> 1 - n" by simp
    define P where "P = (- n - 1) * (1 - n)"
    define A where "A = \<bar>(n + 1) * (2 - n)\<bar>"
    have "4 \<le> - n - 1" using big by simp
    then have "4 * (1 - n) \<le> (- n - 1) * (1 - n)" by (rule mult_right_mono) (use big in simp)
    then have 1: "4 * (1 - n) \<le> P" by (simp add: P_def)
    have "(n + 1) * (2 - n) \<le> 0" by (rule mult_nonpos_nonneg) (use big in simp_all)
    then have "A = - ((n + 1) * (2 - n))" by (simp add: A_def)
    also have "\<dots> = P + (- n - 1)" by (simp add: P_def algebra_simps)
    finally have 2: "A = P + (- n - 1)" .
    define X :: int where "X = 2 ^ 53"
    have 3: "A \<le> 2 * (X - 1)" using c by (simp add: A_def X_def)
    have 4: "0 < X" by (simp add: X_def)
    have 5: "X \<le> 1 - n" using big by (simp add: X_def)
    show False using 1 2 3 4 5 by presburger
  qed
qed


lemma for_loop_exact:
  assumes "\<forall>j. i \<le> j \<and> j \<le> b \<longrightarrow> \<bar>j + 1\<bar> \<le> 2 ^ 53 \<and> \<bar>acc + (\<Sum>k = i..j. k)\<bar> \<le> 2 ^ 53"
  shows "for_loop (Finite i) (Finite b) (Finite acc) = Some (Finite (acc + (\<Sum>k = i..b. k)))"
  using assms
proof (induction "nat (b + 1 - i)" arbitrary: i acc)
  case 0
  then have "\<not> i \<le> b" by simp
  then show ?case by (subst for_loop.simps) simp
next
  case (Suc m)
  then have le: "i \<le> b" by simp
  have here: "\<bar>i + 1\<bar> \<le> 2 ^ 53" "\<bar>acc + i\<bar> \<le> 2 ^ 53"
    using Suc.prems[rule_format, of i] le by simp_all
  have m: "m = nat (b + 1 - (i + 1))" using Suc.hyps(2) by simp
  have rest: "\<forall>j. i + 1 \<le> j \<and> j \<le> b \<longrightarrow>
      \<bar>j + 1\<bar> \<le> 2 ^ 53 \<and> \<bar>(acc + i) + (\<Sum>k = i + 1..j. k)\<bar> \<le> 2 ^ 53"
  proof (intro allI impI)
    fix j assume j: "i + 1 \<le> j \<and> j \<le> b"
    then have "i \<le> j \<and> j \<le> b" by simp
    then have "\<bar>j + 1\<bar> \<le> 2 ^ 53 \<and> \<bar>acc + (\<Sum>k = i..j. k)\<bar> \<le> 2 ^ 53"
      using Suc.prems by blast
    moreover have "(\<Sum>k = i..j. k) = i + (\<Sum>k = i + 1..j. k)" using j sum_first[of i j] by simp
    ultimately show "\<bar>j + 1\<bar> \<le> 2 ^ 53 \<and> \<bar>(acc + i) + (\<Sum>k = i + 1..j. k)\<bar> \<le> 2 ^ 53"
      by (simp add: add.assoc)
  qed
  have "for_loop (Finite (i + 1)) (Finite b) (Finite (acc + i))
          = Some (Finite ((acc + i) + (\<Sum>k = i + 1..b. k)))"
    using Suc.hyps(1)[OF m rest] .
  moreover have "(\<Sum>k = i..b. k) = i + (\<Sum>k = i + 1..b. k)" using le by (rule sum_first)
  ultimately show ?case using le here
    by (subst for_loop.simps) (simp add: to_double_small add.assoc)
qed

lemma sum_to_n_a_exact:
  assumes "safe n"
  shows "sum_to_n_a (Finite n) = Some (Finite (sum_min_max n))"
proof (cases "1 \<le> n")
  case True
  have total: "(\<Sum>k = 1..n. k) \<le> 2 ^ 53"
    using assms True by (simp add: safe_def MAX_SAFE_INTEGER_def sum_min_max_def)
  have "\<forall>j. 1 \<le> j \<and> j \<le> n \<longrightarrow> \<bar>j + 1\<bar> \<le> 2 ^ 53 \<and> \<bar>0 + (\<Sum>k = 1..j. k)\<bar> \<le> 2 ^ 53"
  proof (intro allI impI)
    fix j assume j: "1 \<le> j \<and> j \<le> n"
    have "j + 1 \<le> 2 ^ 53" using safe_up_bound(1)[OF assms True] j by simp
    moreover have "0 \<le> (\<Sum>k = 1..j. k)" "(\<Sum>k = 1..j. k) \<le> (\<Sum>k = 1..n. k)"
      using partial_up[of j n] j by simp_all
    ultimately show "\<bar>j + 1\<bar> \<le> 2 ^ 53 \<and> \<bar>0 + (\<Sum>k = 1..j. k)\<bar> \<le> 2 ^ 53"
      using total j by simp
  qed
  from for_loop_exact[OF this] show ?thesis
    using True by (simp add: sum_to_n_a_def Math_trunc_def js_ge_def sum_min_max_def)
next
  case False
  then have lt: "n < 1" by simp
  have t: "sum_min_max n = (\<Sum>k = n..0. k) + 1"
    using lt sum_to_one[of n] by (simp add: sum_min_max_def)
  have low: "- (2 ^ 53) \<le> (\<Sum>k = n..0. k)" and whole: "\<bar>(\<Sum>k = n..1. k)\<bar> \<le> 2 ^ 53"
    using assms t lt by (simp_all add: safe_def MAX_SAFE_INTEGER_def sum_min_max_def)
  have nb: "2 - n \<le> 2 ^ 53" using safe_down_bound(1)[OF assms lt] .
  have "\<forall>j. n \<le> j \<and> j \<le> 1 \<longrightarrow> \<bar>j + 1\<bar> \<le> 2 ^ 53 \<and> \<bar>0 + (\<Sum>k = n..j. k)\<bar> \<le> 2 ^ 53"
  proof (intro allI impI)
    fix j assume j: "n \<le> j \<and> j \<le> 1"
    have 1: "\<bar>j + 1\<bar> \<le> 2 ^ 53" using j nb by (simp add: abs_le_iff)
    have 2: "\<bar>(\<Sum>k = n..j. k)\<bar> \<le> 2 ^ 53"
    proof (cases "j = 1")
      case True
      then show ?thesis using whole by simp
    next
      case False
      then have "j \<le> 0" using j by simp
      from partial_down[OF this, of n] show ?thesis using low by simp
    qed
    show "\<bar>j + 1\<bar> \<le> 2 ^ 53 \<and> \<bar>0 + (\<Sum>k = n..j. k)\<bar> \<le> 2 ^ 53" using 1 2 by simp
  qed
  from for_loop_exact[OF this] show ?thesis
    using lt by (simp add: sum_to_n_a_def Math_trunc_def js_ge_def sum_min_max_def)
qed

lemma sum_to_n_c_exact:
  assumes "safe n"
  shows "sum_to_n_c (Finite n) = Whole (Finite (sum_min_max n))"
proof (cases "1 \<le> n")
  case True
  have a: "js_add (Finite n) (Finite 1) = Finite (n + 1)"
    using safe_up_bound(1)[OF assms True] True by (intro js_add_exact) simp
  have ev: "even (n * (n + 1))" by simp
  have m: "js_mul (Finite n) (Finite (n + 1)) = Finite (n * (n + 1))"
    using safe_up_bound(2,3)[OF assms True] by (intro js_mul_even ev) simp
  have "n * (n + 1) div 2 = sum_min_max n" using sum_min_max_closed[of n] True by simp
  then show ?thesis using True a m ev
    by (simp add: sum_to_n_c_def Math_trunc_def js_ge_def)
next
  case False
  then have lt: "n < 1" by simp
  have nb: "2 - n \<le> 2 ^ 53" using safe_down_bound(1)[OF assms lt] .
  have a: "js_add (Finite n) (Finite 1) = Finite (n + 1)"
    using nb lt by (intro js_add_exact) simp
  have c: "js_sub (Finite 2) (Finite n) = Finite (2 - n)"
    using nb lt by (intro js_sub_exact) simp
  have ev: "even ((n + 1) * (2 - n))" by simp
  have m: "js_mul (Finite (n + 1)) (Finite (2 - n)) = Finite ((n + 1) * (2 - n))"
    using safe_down_bound(2)[OF assms lt] by (intro js_mul_even ev)
  have "(n + 1) * (2 - n) div 2 = sum_min_max n" using sum_min_max_closed[of n] lt by simp
  then show ?thesis using lt a c m ev
    by (simp add: sum_to_n_c_def Math_trunc_def js_ge_def Let_def)
qed


lemma safe_1: "safe 1"
  by (simp add: safe_def sum_min_max_1 MAX_SAFE_INTEGER_def)

lemma safe_pred:
  assumes "safe n" "1 < n"
  shows "safe (n - 1)"
proof -
  have a: "sum_min_max n = (\<Sum>k = 1..n. k)" "sum_min_max (n - 1) = (\<Sum>k = 1..n - 1. k)"
    using assms(2) by (simp_all add: sum_min_max_def)
  from partial_up[of "n - 1" n] a assms(1) show ?thesis by (simp add: safe_def)
qed

lemma safe_succ:
  assumes "safe n" "n < 1"
  shows "safe (n + 1)"
proof -
  have step: "sum_min_max n = n + sum_min_max (n + 1)" using assms(2) by (rule sum_min_max_step_down)
  have "sum_min_max (n + 1) = (\<Sum>k = n + 1..0. k) + 1"
    using assms(2) sum_to_one[of "n + 1"] by (simp add: sum_min_max_def)
  moreover have "(\<Sum>k = n + 1..0. k) \<le> 0" by (rule sum_nonpos) simp
  ultimately have up: "sum_min_max (n + 1) \<le> 1" by simp
  have lo: "sum_min_max n \<le> sum_min_max (n + 1)" using step assms(2) by simp
  show ?thesis using assms(1) up lo by (simp add: safe_def MAX_SAFE_INTEGER_def)
qed

lemma safe_range:
  assumes "safe n"
  shows "\<bar>n\<bar> \<le> 2 ^ 53" and "\<bar>n - 1\<bar> \<le> 2 ^ 53" and "\<bar>n + 1\<bar> \<le> 2 ^ 53"
proof -
  have "\<bar>n\<bar> \<le> 2 ^ 53 \<and> \<bar>n - 1\<bar> \<le> 2 ^ 53 \<and> \<bar>n + 1\<bar> \<le> 2 ^ 53"
  proof (cases "1 \<le> n")
    case True
    then show ?thesis using safe_up_bound(1)[OF assms True] by (simp add: abs_le_iff)
  next
    case False
    then have "n < 1" by simp
    then show ?thesis using safe_down_bound(1)[OF assms] by (simp add: abs_le_iff)
  qed
  then show "\<bar>n\<bar> \<le> 2 ^ 53" and "\<bar>n - 1\<bar> \<le> 2 ^ 53" and "\<bar>n + 1\<bar> \<le> 2 ^ 53" by simp_all
qed

lemma sum_to_n_b_exact:
  "safe n \<Longrightarrow> nat \<bar>n - 1\<bar> < frames \<Longrightarrow>
   sum_to_n_b frames (Finite n) = Inr (Finite (sum_min_max n))"
proof (induction frames arbitrary: n)
  case 0
  then show ?case by simp
next
  case (Suc frames)
  have whole: "\<bar>sum_min_max n\<bar> \<le> 2 ^ 53"
    using Suc.prems(1) by (simp add: safe_def MAX_SAFE_INTEGER_def)
  consider "n = 1" | "1 < n" | "n < 1" by linarith
  then show ?case
  proof cases
    case 1
    then show ?thesis by (simp add: Math_trunc_def js_eq_def sum_min_max_1)
  next
    case 2
    have sub: "js_sub (Finite n) (Finite 1) = Finite (n - 1)"
      using safe_range(2)[OF Suc.prems(1)] by (rule js_sub_exact)
    have "sum_to_n_b frames (Finite (n - 1)) = Inr (Finite (sum_min_max (n - 1)))"
      using Suc.IH[OF safe_pred[OF Suc.prems(1) 2]] Suc.prems(2) 2 by simp
    moreover have "js_add (Finite n) (Finite (sum_min_max (n - 1))) = Finite (sum_min_max n)"
      using whole sum_min_max_step_up[OF 2] by (simp add: to_double_small)
    ultimately show ?thesis using 2 sub
      by (simp add: Math_trunc_def js_eq_def js_gt_def)
  next
    case 3
    have add: "js_add (Finite n) (Finite 1) = Finite (n + 1)"
      using safe_range(3)[OF Suc.prems(1)] by (rule js_add_exact)
    have "sum_to_n_b frames (Finite (n + 1)) = Inr (Finite (sum_min_max (n + 1)))"
      using Suc.IH[OF safe_succ[OF Suc.prems(1) 3]] Suc.prems(2) 3 by simp
    moreover have "js_add (Finite n) (Finite (sum_min_max (n + 1))) = Finite (sum_min_max n)"
      using whole sum_min_max_step_down[OF 3] by (simp add: to_double_small)
    ultimately show ?thesis using 3 add
      by (simp add: Math_trunc_def js_eq_def js_gt_def del: js_add.simps)
  qed
qed

lemma sum_to_n_b_next_exact:
  assumes "\<bar>n\<bar> \<le> 2 ^ 53" "n \<noteq> 1"
  shows "sum_to_n_b_next (Finite n) = Finite (if 1 < n then n - 1 else n + 1)"
  using assms by (simp add: sum_to_n_b_next_def js_gt_def js_sub_def to_double_small abs_le_iff)

lemma sum_to_n_b_unfold:
  "n \<noteq> 1 \<Longrightarrow> sum_to_n_b (Suc frames) (Finite n) =
     (case sum_to_n_b frames (sum_to_n_b_next (Finite n)) of
        Inl err \<Rightarrow> Inl err
      | Inr r \<Rightarrow> Inr (js_add (Finite n) r))"
  by (simp add: sum_to_n_b_next_def Math_trunc_def js_eq_def Let_def del: js_add.simps)

lemma sum_to_n_b_overflow:
  "\<bar>n\<bar> \<le> 2 ^ 53 \<Longrightarrow> frames \<le> nat \<bar>n - 1\<bar> \<Longrightarrow> sum_to_n_b frames (Finite n) = Inl RangeError"
proof (induction frames arbitrary: n)
  case 0
  show ?case by simp
next
  case (Suc frames)
  then have ne: "n \<noteq> 1" by auto
  let ?m = "if 1 < n then n - 1 else n + 1"
  have nx: "sum_to_n_b_next (Finite n) = Finite ?m"
    using sum_to_n_b_next_exact[OF Suc.prems(1) ne] .
  have "\<bar>?m\<bar> \<le> 2 ^ 53" "frames \<le> nat \<bar>?m - 1\<bar>" using Suc.prems ne by (auto simp: abs_le_iff)
  then have "sum_to_n_b frames (Finite ?m) = Inl RangeError" by (rule Suc.IH)
  then show ?case using sum_to_n_b_unfold[OF ne, of frames] nx by simp
qed

lemma sum_to_n_b_returns:
  "\<bar>n\<bar> \<le> 2 ^ 53 \<Longrightarrow> nat \<bar>n - 1\<bar> < frames \<Longrightarrow> \<exists>r. sum_to_n_b frames (Finite n) = Inr r"
proof (induction frames arbitrary: n)
  case 0
  then show ?case by simp
next
  case (Suc frames)
  show ?case
  proof (cases "n = 1")
    case True
    then show ?thesis by (simp add: Math_trunc_def js_eq_def)
  next
    case False
    let ?m = "if 1 < n then n - 1 else n + 1"
    have nx: "sum_to_n_b_next (Finite n) = Finite ?m"
      using sum_to_n_b_next_exact[OF Suc.prems(1) False] .
    have "\<bar>?m\<bar> \<le> 2 ^ 53" "nat \<bar>?m - 1\<bar> < frames" using Suc.prems False by (auto simp: abs_le_iff)
    then obtain r where "sum_to_n_b frames (Finite ?m) = Inr r" using Suc.IH by blast
    then show ?thesis using sum_to_n_b_unfold[OF False, of frames] nx by simp
  qed
qed

lemma sum_to_n_b_stuck: "sum_to_n_b frames (Finite (2 ^ 53 + 4)) = Inl RangeError"
proof (induction frames)
  case 0
  show ?case by simp
next
  case (Suc frames)
  have "to_double (2 ^ 53 + 4 - 1) = Finite (2 ^ 53 + 4)"
    by (simp add: to_double_def compute_bitlen Let_def)
  then have "sum_to_n_b_next (Finite (2 ^ 53 + 4)) = Finite (2 ^ 53 + 4)"
    by (simp add: sum_to_n_b_next_def js_gt_def js_sub_def)
  then show ?case using Suc sum_to_n_b_unfold[of "2 ^ 53 + 4" frames] by simp
qed

text \<open>
  Claim C8, as the code has it. For every integer \<open>n\<close> whose sum from \<open>min n 1\<close> to
  \<open>max n 1\<close> lies within \<^verbatim>\<open>Number.MAX_SAFE_INTEGER\<close> in absolute value, which is the
  assumption in the header of the source file, the three implementations return that sum:
  the loop ends with it, the recursion returns it whenever the call stack has more than
  \<open>\<bar>n - 1\<bar>\<close> free frames, and the formula's quotient is that integer. Twice the sum is
  \<open>n (n + 1)\<close> for \<open>n \<ge> 1\<close> and \<open>(n + 1) (2 - n)\<close> for \<open>n < 1\<close>.
\<close>

theorem sum_to_n_agree:
  assumes "\<bar>sum_min_max n\<bar> \<le> MAX_SAFE_INTEGER"
  shows "sum_to_n_a (Finite n) = Some (Finite (sum_min_max n))
     \<and> (\<forall>frames. nat \<bar>n - 1\<bar> < frames \<longrightarrow>
            sum_to_n_b frames (Finite n) = Inr (Finite (sum_min_max n)))
     \<and> sum_to_n_c (Finite n) = Whole (Finite (sum_min_max n))
     \<and> 2 * sum_min_max n = (if 1 \<le> n then n * (n + 1) else (n + 1) * (2 - n))"
proof -
  have s: "safe n" using assms by (simp add: safe_def)
  show ?thesis
    using sum_to_n_a_exact[OF s] sum_to_n_b_exact[OF s] sum_to_n_c_exact[OF s]
      sum_min_max_closed[of n] by blast
qed

theorem sum_to_n_agree_witness:
  "sum_to_n_a (Finite 5) = Some (Finite 15) \<and> sum_to_n_b 5 (Finite 5) = Inr (Finite 15)
   \<and> sum_to_n_c (Finite 5) = Whole (Finite 15)
   \<and> sum_to_n_a (Finite (- 2)) = Some (Finite (- 2))
   \<and> sum_to_n_b 4 (Finite (- 2)) = Inr (Finite (- 2))
   \<and> sum_to_n_c (Finite (- 2)) = Whole (Finite (- 2))"
proof -
  have c5: "2 * sum_min_max 5 = 30" and c2: "2 * sum_min_max (- 2) = - 4"
    using sum_min_max_closed[of 5] sum_min_max_closed[of "- 2"] by simp_all
  then have v: "sum_min_max 5 = 15" "sum_min_max (- 2) = - 2" by simp_all
  have h5: "\<bar>sum_min_max 5\<bar> \<le> MAX_SAFE_INTEGER" and h2: "\<bar>sum_min_max (- 2)\<bar> \<le> MAX_SAFE_INTEGER"
    by (simp_all add: v MAX_SAFE_INTEGER_def)
  have f5: "nat \<bar>(5::int) - 1\<bar> < 5" and f2: "nat \<bar>(- 2::int) - 1\<bar> < 4" by simp_all
  show ?thesis
    using sum_to_n_agree[OF h5] sum_to_n_agree[OF h2] f5 f2 by (simp add: v)
qed

text \<open>
  The claim as stated fails: 134217729 is an integer and a double, the sum from 1 to it is
  9007199456067585, but in \<^verbatim>\<open>sum_to_n_c\<close> the product \<open>n (n + 1)\<close> is rounded to a
  multiple of four and the function returns 9007199456067584.
\<close>

theorem sum_to_n_c_rounds_counterexample:
  "to_double 134217729 = Finite 134217729
   \<and> sum_to_n_c (Finite 134217729) = Whole (Finite 9007199456067584)
   \<and> sum_min_max 134217729 = 9007199456067585"
proof -
  have "2 * sum_min_max 134217729 = 2 * 9007199456067585"
    using sum_min_max_closed[of 134217729] by simp
  then have "sum_min_max 134217729 = 9007199456067585" by simp
  moreover have "sum_to_n_c (Finite 134217729) = Whole (Finite 9007199456067584)"
    by (simp add: sum_to_n_c_def Math_trunc_def js_ge_def to_double_def compute_bitlen Let_def)
  moreover have "to_double 134217729 = Finite 134217729" by (simp add: to_double_def)
  ultimately show ?thesis by blast
qed

text \<open>
  Claim C9, as the code has it. For every integer \<open>n\<close> of absolute value at most
  \<open>2 ^ 53\<close>, \<^verbatim>\<open>sum_to_n_b\<close> returns exactly when the call stack has more than
  \<open>\<bar>n - 1\<bar>\<close> free frames, and throws \<^verbatim>\<open>RangeError\<close> otherwise. Away from the base case
  it calls itself on \<open>n - 1\<close> above 1 and on \<open>n + 1\<close> below, and there the distance
  \<open>\<bar>n - 1\<bar>\<close> is smaller by exactly one.
\<close>

theorem sum_to_n_b_terminates:
  assumes "\<bar>n\<bar> \<le> 2 ^ 53"
  shows "((\<exists>r. sum_to_n_b frames (Finite n) = Inr r) \<longleftrightarrow> nat \<bar>n - 1\<bar> < frames)
     \<and> (frames \<le> nat \<bar>n - 1\<bar> \<longrightarrow> sum_to_n_b frames (Finite n) = Inl RangeError)
     \<and> (n \<noteq> 1 \<longrightarrow>
           sum_to_n_b_next (Finite n) = Finite (if 1 < n then n - 1 else n + 1)
           \<and> \<bar>(if 1 < n then n - 1 else n + 1) - 1\<bar> = \<bar>n - 1\<bar> - 1
           \<and> sum_to_n_b (Suc frames) (Finite n) =
                (case sum_to_n_b frames (sum_to_n_b_next (Finite n)) of
                   Inl err \<Rightarrow> Inl err
                 | Inr r \<Rightarrow> Inr (js_add (Finite n) r)))"
proof -
  have over: "sum_to_n_b frames (Finite n) = Inl RangeError" if "frames \<le> nat \<bar>n - 1\<bar>"
    using sum_to_n_b_overflow[OF assms that] .
  have ret: "\<exists>r. sum_to_n_b frames (Finite n) = Inr r" if "nat \<bar>n - 1\<bar> < frames"
    using sum_to_n_b_returns[OF assms that] .
  have iff: "(\<exists>r. sum_to_n_b frames (Finite n) = Inr r) \<longleftrightarrow> nat \<bar>n - 1\<bar> < frames"
  proof
    assume "\<exists>r. sum_to_n_b frames (Finite n) = Inr r"
    then show "nat \<bar>n - 1\<bar> < frames" using over by (cases "nat \<bar>n - 1\<bar> < frames") auto
  next
    assume "nat \<bar>n - 1\<bar> < frames"
    then show "\<exists>r. sum_to_n_b frames (Finite n) = Inr r" by (rule ret)
  qed
  have rec: "sum_to_n_b_next (Finite n) = Finite (if 1 < n then n - 1 else n + 1)
           \<and> \<bar>(if 1 < n then n - 1 else n + 1) - 1\<bar> = \<bar>n - 1\<bar> - 1
           \<and> sum_to_n_b (Suc frames) (Finite n) =
                (case sum_to_n_b frames (sum_to_n_b_next (Finite n)) of
                   Inl err \<Rightarrow> Inl err
                 | Inr r \<Rightarrow> Inr (js_add (Finite n) r))"
    if ne: "n \<noteq> 1"
  proof -
    have "\<bar>(if 1 < n then n - 1 else n + 1) - 1\<bar> = \<bar>n - 1\<bar> - 1" using ne by simp
    then show ?thesis
      using sum_to_n_b_next_exact[OF assms ne] sum_to_n_b_unfold[OF ne, of frames] by blast
  qed
  show ?thesis using iff over rec by blast
qed

theorem sum_to_n_b_terminates_witness:
  "(\<exists>r. sum_to_n_b 5 (Finite (- 3)) = Inr r)
   \<and> sum_to_n_b 4 (Finite (- 3)) = Inl RangeError
   \<and> sum_to_n_b_next (Finite (- 3)) = Finite (- 2)"
proof -
  have b: "\<bar>- 3 :: int\<bar> \<le> 2 ^ 53" by simp
  have f5: "nat \<bar>(- 3 :: int) - 1\<bar> < 5" and f4: "4 \<le> nat \<bar>(- 3 :: int) - 1\<bar>"
    and ne: "(- 3 :: int) \<noteq> 1" by simp_all
  have 1: "\<exists>r. sum_to_n_b 5 (Finite (- 3)) = Inr r"
    using sum_to_n_b_terminates[OF b, of 5] f5 by blast
  have 2: "sum_to_n_b 4 (Finite (- 3)) = Inl RangeError"
    using sum_to_n_b_terminates[OF b, of 4] f4 by blast
  have "sum_to_n_b_next (Finite (- 3)) = Finite (if 1 < (- 3 :: int) then - 3 - 1 else - 3 + 1)"
    using sum_to_n_b_terminates[OF b, of 4] ne by blast
  then have 3: "sum_to_n_b_next (Finite (- 3)) = Finite (- 2)" by simp
  show ?thesis using 1 2 3 by blast
qed

text \<open>
  The claim as stated fails: \<open>2 ^ 53 + 4\<close> is an integer and a double, but subtracting one
  rounds back to it, so the recursive call has the same argument and no stack is large
  enough. And on a stack of 10000 frames the call for 10001 throws \<^verbatim>\<open>RangeError\<close>.
\<close>

theorem sum_to_n_b_no_progress_counterexample:
  "to_double (2 ^ 53 + 4) = Finite (2 ^ 53 + 4)
   \<and> sum_to_n_b_next (Finite (2 ^ 53 + 4)) = Finite (2 ^ 53 + 4)
   \<and> sum_to_n_b 10000 (Finite (2 ^ 53 + 4)) = Inl RangeError
   \<and> sum_to_n_b 10000 (Finite 10001) = Inl RangeError"
proof -
  have 1: "to_double (2 ^ 53 + 4) = Finite (2 ^ 53 + 4)"
    by (simp add: to_double_def compute_bitlen Let_def)
  have "to_double (2 ^ 53 + 4 - 1) = Finite (2 ^ 53 + 4)"
    by (simp add: to_double_def compute_bitlen Let_def)
  then have 2: "sum_to_n_b_next (Finite (2 ^ 53 + 4)) = Finite (2 ^ 53 + 4)"
    by (simp add: sum_to_n_b_next_def js_gt_def js_sub_def)
  have 3: "sum_to_n_b 10000 (Finite (2 ^ 53 + 4)) = Inl RangeError" by (rule sum_to_n_b_stuck)
  have 4: "sum_to_n_b 10000 (Finite 10001) = Inl RangeError"
    by (rule sum_to_n_b_overflow) simp_all
  show ?thesis using 1 2 3 4 by blast
qed

section \<open>Properties of the resource controller\<close>

lemma findOneBy_id: "findOneBy rows i = Some r \<Longrightarrow> id_col r = i \<and> r \<in> set rows"
  by (auto simp: findOneBy_def find_Some_iff)

lemma find_replace_same:
  "find (\<lambda>x. id_col x = k) rows = Some r0 \<Longrightarrow> id_col r = k \<Longrightarrow>
   find (\<lambda>x. id_col x = k) (map (\<lambda>x. if id_col x = k then r else x) rows) = Some r"
  by (induction rows) (auto split: if_splits)

lemma find_replace_other:
  "j \<noteq> k \<Longrightarrow> id_col r = k \<Longrightarrow>
   find (\<lambda>x. id_col x = j) (map (\<lambda>x. if id_col x = k then r else x) rows)
     = find (\<lambda>x. id_col x = j) rows"
  by (induction rows) auto

lemma find_append_other:
  "j \<noteq> id_col r \<Longrightarrow> find (\<lambda>x. id_col x = j) (rows @ [r]) = find (\<lambda>x. id_col x = j) rows"
  by (induction rows) auto

lemma map_id_replace:
  "id_col r = k \<Longrightarrow> map id_col (map (\<lambda>x. if id_col x = k then r else x) rows) = map id_col rows"
  by (induction rows) auto

lemma save_existing:
  "findOneBy rows (id_col r) = Some r0 \<Longrightarrow>
   save rows r = map (\<lambda>x. if id_col x = id_col r then r else x) rows"
  by (auto simp: save_def findOneBy_def find_Some_iff)

lemma findOneBy_save_same:
  "findOneBy rows (id_col r) = Some r0 \<Longrightarrow> findOneBy (save rows r) (id_col r) = Some r"
  using find_replace_same[of "id_col r" rows r0 r]
  by (simp add: save_existing) (simp add: findOneBy_def)

lemma findOneBy_save_other:
  "j \<noteq> id_col r \<Longrightarrow> findOneBy (save rows r) j = findOneBy rows j"
  by (simp add: findOneBy_def save_def find_replace_other find_append_other)

lemma map_id_save:
  "findOneBy rows (id_col r) = Some r0 \<Longrightarrow> map id_col (save rows r) = map id_col rows"
  by (simp add: save_existing map_id_replace)

text \<open>
  Claim C10. When \<^verbatim>\<open>updateResource\<close> finds the resource and no database call throws, it
  replies with the stored resource, whose id is the old id; a name (a description) that is
  undefined or null in the body leaves the stored name (description) as it was, and any
  other value replaces it; no row changes its id and no other row changes at all.
\<close>

theorem updateResource_frame:
  assumes found: "findOneBy rows i = Some r"
    and ok: "\<not> fails FindCall \<and> \<not> fails SaveCall"
    and res: "updateResource fails i body rows = (rows', reply)"
  shows "\<exists>r'. reply = Reply_resource r' \<and> findOneBy rows' i = Some r'
           \<and> id_col r' = id_col r
           \<and> (body_name body \<in> {Undefined, Null} \<longrightarrow> name r' = name r)
           \<and> (body_description body \<in> {Undefined, Null} \<longrightarrow> description r' = description r)
           \<and> (body_name body \<notin> {Undefined, Null} \<longrightarrow> name r' = body_name body)
           \<and> (body_description body \<notin> {Undefined, Null}
                \<longrightarrow> description r' = body_description body)
           \<and> map id_col rows' = map id_col rows
           \<and> (\<forall>j. j \<noteq> i \<longrightarrow> findOneBy rows' j = findOneBy rows j)"
proof -
  let ?r' = "r\<lparr>name := nullish (body_name body) (name r),
               description := nullish (body_description body) (description r)\<rparr>"
  have idr: "id_col r = i" using findOneBy_id[OF found] by simp
  have idr': "id_col ?r' = i" using idr by simp
  have res': "rows' = save rows ?r'" "reply = Reply_resource ?r'"
    using found ok res by (simp_all add: updateResource_def Let_def)
  have f: "findOneBy rows (id_col ?r') = Some r" using found idr' by simp
  have 1: "findOneBy rows' i = Some ?r'" using findOneBy_save_same[OF f] res'(1) idr' by simp
  have 2: "map id_col rows' = map id_col rows" using map_id_save[OF f] res'(1) by simp
  have 3: "\<forall>j. j \<noteq> i \<longrightarrow> findOneBy rows' j = findOneBy rows j"
    using findOneBy_save_other[of _ ?r' rows] res'(1) idr' by simp
  have 4: "body_name body \<in> {Undefined, Null} \<longrightarrow> name ?r' = name r"
    by (auto simp: nullish_def)
  have 5: "body_description body \<in> {Undefined, Null} \<longrightarrow> description ?r' = description r"
    by (auto simp: nullish_def)
  have 6: "body_name body \<notin> {Undefined, Null} \<longrightarrow> name ?r' = body_name body"
    by (cases "body_name body") (auto simp: nullish_def)
  have 7: "body_description body \<notin> {Undefined, Null}
             \<longrightarrow> description ?r' = body_description body"
    by (cases "body_description body") (auto simp: nullish_def)
  show ?thesis using res'(2) 1 2 3 4 5 6 7 idr by (intro exI[of _ ?r']) simp
qed

theorem updateResource_frame_witness:
  "\<exists>r'. updateResource (\<lambda>_. False) 2 \<lparr>body_name = Null, body_description = Undefined\<rparr>
          [\<lparr>id_col = 1, name = Str ''a'', description = Null\<rparr>,
           \<lparr>id_col = 2, name = Str ''b'', description = Str ''old''\<rparr>]
        = ([\<lparr>id_col = 1, name = Str ''a'', description = Null\<rparr>, r'], Reply_resource r')
      \<and> id_col r' = 2 \<and> name r' = Str ''b'' \<and> description r' = Str ''old''"
proof -
  let ?rows = "[\<lparr>id_col = 1, name = Str ''a'', description = Null\<rparr>,
                \<lparr>id_col = 2, name = Str ''b'', description = Str ''old''\<rparr>]"
  let ?body = "\<lparr>body_name = Null, body_description = Undefined\<rparr>"
  let ?r = "\<lparr>id_col = 2, name = Str ''b'', description = Str ''old''\<rparr>"
  have found: "findOneBy ?rows 2 = Some ?r" by (simp add: findOneBy_def)
  have ok: "\<not> (\<lambda>_. False) FindCall \<and> \<not> (\<lambda>_. False) SaveCall" by simp
  have res: "updateResource (\<lambda>_. False) 2 ?body ?rows
      = (fst (updateResource (\<lambda>_. False) 2 ?body ?rows), snd (updateResource (\<lambda>_. False) 2 ?body ?rows))"
    by simp
  from updateResource_frame[OF found ok res]
  obtain r' where r': "snd (updateResource (\<lambda>_. False) 2 ?body ?rows) = Reply_resource r'"
     "id_col r' = id_col ?r" "name r' = name ?r" "description r' = description ?r"
    by auto
  then have "r' = ?r" by (cases r') simp
  then show ?thesis using r'
    by (intro exI[of _ r']) (simp add: updateResource_def findOneBy_def save_def nullish_def Let_def)
qed

section \<open>Properties of the action completion handler\<close>

lemmas example_defs = example_world_def example_request_def example_env_def
lemmas handler_defs = completeAction_def gate_def transaction_def after_commit_def
  catch_block_def finally_release_def lastCompletion_def Let_def

lemma latest_None: "latest cs = None \<longleftrightarrow> cs = []"
  by (induction cs) (auto split: option.splits)

lemma latest_Some:
  "latest cs = Some b \<Longrightarrow> b \<in> set cs \<and> (\<forall>c \<in> set cs. completed_at c \<le> completed_at b)"
  by (induction cs arbitrary: b) (fastforce split: option.splits if_splits simp: latest_None)+


lemma transaction_commits:
  "\<forall>s \<in> set transaction_steps. \<not> throws e s \<Longrightarrow> users d (req_userId req) = Some u \<Longrightarrow>
   transaction e req a d =
     Inr (committed_db e req a u d, total_score u + scoreReward a,
          isSuspiciousJump e (req_userId req) (total_score u + scoreReward a) (total_score u) a)"
  by (simp add: transaction_def transaction_steps_def committed_db_def Let_def)

lemma transaction_Inr:
  "transaction e req a d = Inr (d', newScore, isProbable) \<Longrightarrow>
   \<exists>u. users d (req_userId req) = Some u \<and> d' = committed_db e req a u d
       \<and> newScore = total_score u + scoreReward a
       \<and> isProbable = isSuspiciousJump e (req_userId req) newScore (total_score u) a
       \<and> (\<forall>s \<in> set transaction_steps. \<not> throws e s)"
  by (auto simp: transaction_def transaction_steps_def committed_db_def Let_def
      split: option.splits if_splits)

lemma after_commit_db: "db (fst (after_commit e req a ns p w)) = db w"
  by (simp add: after_commit_def Let_def)

lemma gate_pass_action:
  "gate e req w = Gate_pass a \<Longrightarrow> actions (db w) (body_actionId req) = Some a"
  by (auto simp: gate_def split: option.splits if_splits)




lemma after_commit_ok:
  "\<not> throws e RedisDel \<Longrightarrow> \<not> throws e RedisSet \<Longrightarrow> \<not> throws e Emit \<Longrightarrow>
   \<not> throws e Release \<Longrightarrow>
   snd (after_commit e req a ns p w) = Json 200 (Success_body ns (scoreReward a) p)"
  by (simp add: after_commit_def finally_release_def Let_def)


lemma catch_block_not_200: "catch_block e b \<noteq> Json 200 body"
  by (simp add: catch_block_def finally_release_def)

lemma completeAction_accepts:
  assumes "gate e req w = Gate_pass a" "\<forall>s. \<not> throws e s" "users (db w) (req_userId req) = Some u"
  shows "snd (completeAction e req w) =
           Json 200 (Success_body (total_score u + scoreReward a) (scoreReward a)
             (isSuspiciousJump e (req_userId req) (total_score u + scoreReward a) (total_score u) a))"
    and "db (fst (completeAction e req w)) = committed_db e req a u (db w)"
proof -
  have t: "transaction e req a (db w) =
     Inr (committed_db e req a u (db w), total_score u + scoreReward a,
          isSuspiciousJump e (req_userId req) (total_score u + scoreReward a) (total_score u) a)"
    using assms(2,3) by (intro transaction_commits) auto
  show "snd (completeAction e req w) =
           Json 200 (Success_body (total_score u + scoreReward a) (scoreReward a)
             (isSuspiciousJump e (req_userId req) (total_score u + scoreReward a) (total_score u) a))"
    using assms(1,2) t by (simp add: completeAction_def after_commit_ok)
  show "db (fst (completeAction e req w)) = committed_db e req a u (db w)"
    using assms(1) t by (simp add: completeAction_def after_commit_db)
qed





text \<open>
  Claim C1 at a concrete input. The handler's own header demands that a duplicate request
  must not double the score. The request of the scenario is applied at time 10000. The
  same request again at time 11000 is refused with 409 (cooldown), not answered with the
  original result; the same request again at time 16000 is applied a second time: the
  score is 100 and there are two completion rows for the same user and action.
\<close>

theorem duplicate_request_applied_again:
  "completeAction (example_env 10000) example_request example_world
     = (fst (completeAction (example_env 10000) example_request example_world),
        Json 200 (Success_body 50 50 False))
   \<and> snd (completeAction (example_env 11000) example_request
            (fst (completeAction (example_env 10000) example_request example_world)))
       = Json 409 (Cooldown_body ''Action on cooldown'' 15002)
   \<and> snd (completeAction (example_env 16000) example_request
            (fst (completeAction (example_env 10000) example_request example_world)))
       = Json 200 (Success_body 100 50 False)
   \<and> map (\<lambda>c. (user_id c, action_id c, completed_at c))
        (user_action_completions (db (fst (completeAction (example_env 16000) example_request
            (fst (completeAction (example_env 10000) example_request example_world))))))
       = [(''u1'', ''a1'', 10002), (''u1'', ''a1'', 16002)]
   \<and> map_option total_score (users (db (fst (completeAction (example_env 16000) example_request
            (fst (completeAction (example_env 10000) example_request example_world))))) ''u1'')
       = Some 100"
  by (simp add: handler_defs example_defs)

lemma lastCompletion_latest:
  "lastCompletion d u aid = Some lc \<Longrightarrow>
     lc \<in> set (user_action_completions d) \<and> user_id lc = u \<and> action_id lc = aid
     \<and> (\<forall>c \<in> set (user_action_completions d).
           user_id c = u \<and> action_id c = aid \<longrightarrow> completed_at c \<le> completed_at lc)"
  using latest_Some[of "filter (\<lambda>c. user_id c = u \<and> action_id c = aid) (user_action_completions d)" lc]
  by (auto simp: lastCompletion_def)

lemma gate_cooldown:
  assumes "actions (db w) (body_actionId req) = Some a"
    "lastCompletion (db w) (req_userId req) (body_actionId req) = Some lc"
    "\<not> throws e FindAction" "\<not> throws e FindLastCompletion"
    "date_now e - completed_at lc < 5000"
  shows "gate e req w = Gate_stop (Json 409 (Cooldown_body ''Action on cooldown'' (completed_at lc + 5000)))"
  using assms by (simp add: gate_def)

lemma gate_after_cooldown:
  assumes "actions (db w) (body_actionId req) = Some a"
    "lastCompletion (db w) (req_userId req) (body_actionId req) = Some lc"
    "\<forall>s. \<not> throws e s"
    "5000 \<le> date_now e - completed_at lc"
  shows "gate e req w = Gate_pass a"
  using assms by (simp add: gate_def)

text \<open>
  Claim C5, as the handler has it. Let \<open>lc\<close> be the user's most recent completion of the
  action (no matching row is later). A submission earlier than 5000 ms after \<open>lc\<close>
  changes nothing and is answered 409 with \<^verbatim>\<open>nextAvailableAt\<close> 5000 ms after \<open>lc\<close>; a
  submission at or after that time, when nothing throws, is answered 200 and applied. The
  action's \<^verbatim>\<open>cooldown_seconds\<close> plays no part.
\<close>

theorem cooldown_is_five_seconds:
  assumes act: "actions (db w) (body_actionId req) = Some a"
    and lc: "lastCompletion (db w) (req_userId req) (body_actionId req) = Some lc"
    and usr: "users (db w) (req_userId req) = Some u"
    and ok: "\<forall>s. \<not> throws e s"
  shows "(\<forall>c \<in> set (user_action_completions (db w)).
            user_id c = req_userId req \<and> action_id c = body_actionId req
              \<longrightarrow> completed_at c \<le> completed_at lc)
    \<and> (date_now e < completed_at lc + 5000 \<longrightarrow>
          completeAction e req w =
            (w, Json 409 (Cooldown_body ''Action on cooldown'' (completed_at lc + 5000))))
    \<and> (completed_at lc + 5000 \<le> date_now e \<longrightarrow>
          snd (completeAction e req w) =
            Json 200 (Success_body (total_score u + scoreReward a) (scoreReward a)
              (isSuspiciousJump e (req_userId req) (total_score u + scoreReward a)
                 (total_score u) a))
          \<and> db (fst (completeAction e req w)) = committed_db e req a u (db w))"
proof -
  have 1: "\<forall>c \<in> set (user_action_completions (db w)).
            user_id c = req_userId req \<and> action_id c = body_actionId req
              \<longrightarrow> completed_at c \<le> completed_at lc"
    using lastCompletion_latest[OF lc] by blast
  have 2: "completeAction e req w =
            (w, Json 409 (Cooldown_body ''Action on cooldown'' (completed_at lc + 5000)))"
    if "date_now e < completed_at lc + 5000"
  proof -
    have "date_now e - completed_at lc < 5000" using that by simp
    then show ?thesis using gate_cooldown[OF act lc] ok by (simp add: completeAction_def)
  qed
  have 3: "snd (completeAction e req w) =
            Json 200 (Success_body (total_score u + scoreReward a) (scoreReward a)
              (isSuspiciousJump e (req_userId req) (total_score u + scoreReward a)
                 (total_score u) a))
          \<and> db (fst (completeAction e req w)) = committed_db e req a u (db w)"
    if "completed_at lc + 5000 \<le> date_now e"
  proof -
    have "5000 \<le> date_now e - completed_at lc" using that by simp
    then have "gate e req w = Gate_pass a" using gate_after_cooldown[OF act lc ok] by simp
    then show ?thesis using completeAction_accepts[OF _ ok usr] by simp
  qed
  show ?thesis using 1 2 3 by blast
qed

theorem cooldown_is_five_seconds_witness:
  "completeAction (example_env 15001) example_request
      (fst (completeAction (example_env 10000) example_request example_world))
     = (fst (completeAction (example_env 10000) example_request example_world),
        Json 409 (Cooldown_body ''Action on cooldown'' 15002))
   \<and> snd (completeAction (example_env 15002) example_request
      (fst (completeAction (example_env 10000) example_request example_world)))
     = Json 200 (Success_body 100 50 False)"
proof -
  let ?w = "fst (completeAction (example_env 10000) example_request example_world)"
  let ?a = "\<lparr>scoreReward = 50, cooldown_seconds = 30\<rparr>"
  let ?lc = "\<lparr>completion_id = ''c1'', user_id = ''u1'', action_id = ''a1'', score_earned = 50,
              completed_at = 10002, client_ip = ''10.0.0.1''\<rparr>"
  let ?u = "\<lparr>total_score = 50, created_at = 1000, updated_at = 10002\<rparr>"
  have act: "actions (db ?w) (body_actionId example_request) = Some ?a"
    by (simp add: handler_defs example_defs)
  have lc: "lastCompletion (db ?w) (req_userId example_request) (body_actionId example_request) = Some ?lc"
    by (simp add: handler_defs example_defs)
  have usr: "users (db ?w) (req_userId example_request) = Some ?u"
    by (simp add: handler_defs example_defs)
  have ok1: "\<forall>s. \<not> throws (example_env 15001) s" and ok2: "\<forall>s. \<not> throws (example_env 15002) s"
    by (simp_all add: example_env_def)
  have t1: "date_now (example_env 15001) < completed_at ?lc + 5000"
    and t2: "completed_at ?lc + 5000 \<le> date_now (example_env 15002)"
    by (simp_all add: example_env_def)
  have "completeAction (example_env 15001) example_request ?w
          = (?w, Json 409 (Cooldown_body ''Action on cooldown'' (completed_at ?lc + 5000)))"
    using cooldown_is_five_seconds[OF act lc usr ok1] t1 by blast
  moreover have "snd (completeAction (example_env 15002) example_request ?w) =
            Json 200 (Success_body (total_score ?u + scoreReward ?a) (scoreReward ?a)
              (isSuspiciousJump (example_env 15002) (req_userId example_request)
                 (total_score ?u + scoreReward ?a) (total_score ?u) ?a))"
    using cooldown_is_five_seconds[OF act lc usr ok2] t2 by blast
  ultimately show ?thesis by (simp add: example_env_def)
qed

text \<open>
  The claim as stated fails: action \<open>a1\<close> has a cooldown of 30 seconds and was completed
  at time 10002, yet the submission at time 16000, less than six seconds later, is accepted.
\<close>

theorem cooldown_seconds_ignored_counterexample:
  "map_option cooldown_seconds (actions (db example_world) ''a1'') = Some 30
   \<and> map completed_at (user_action_completions
        (db (fst (completeAction (example_env 10000) example_request example_world)))) = [10002]
   \<and> snd (completeAction (example_env 16000) example_request
            (fst (completeAction (example_env 10000) example_request example_world)))
       = Json 200 (Success_body 100 50 False)"
  by (simp add: handler_defs example_defs)

lemma after_commit_200:
  "after_commit e req a ns p w = (w', Json 200 body) \<Longrightarrow>
     body = Success_body ns (scoreReward a) p
     \<and> db w' = db w
     \<and> emitted w' = emitted w @ [\<lparr>update_userId = req_userId req, update_newScore = ns,
                                    update_scoreAdded = scoreReward a,
                                    update_timestamp = emit_date e\<rparr>]
     \<and> user_score (redis w') = (user_score (redis w))(req_userId req \<mapsto> ns)
     \<and> leaderboard_top10 (redis w') = None"
  by (auto simp: after_commit_def catch_block_not_200 finally_release_def Let_def
      split: if_splits)

lemma completeAction_200:
  assumes "completeAction e req w = (w', Json 200 body)"
  shows "\<exists>a u. actions (db w) (body_actionId req) = Some a
           \<and> users (db w) (req_userId req) = Some u
           \<and> gate e req w = Gate_pass a
           \<and> body = Success_body (total_score u + scoreReward a) (scoreReward a)
                (isSuspiciousJump e (req_userId req) (total_score u + scoreReward a) (total_score u) a)
           \<and> db w' = committed_db e req a u (db w)
           \<and> emitted w' = emitted w @ [\<lparr>update_userId = req_userId req,
                                          update_newScore = total_score u + scoreReward a,
                                          update_scoreAdded = scoreReward a,
                                          update_timestamp = emit_date e\<rparr>]
           \<and> user_score (redis w') = (user_score (redis w))(req_userId req \<mapsto> total_score u + scoreReward a)"
proof (cases "gate e req w")
  case (Gate_stop out)
  then show ?thesis using assms by (auto simp: completeAction_def gate_def split: option.splits if_splits)
next
  case (Gate_pass a)
  show ?thesis
  proof (cases "transaction e req a (db w)")
    case (Inl s)
    then show ?thesis using Gate_pass assms catch_block_not_200[of e True body]
      by (simp add: completeAction_def)
  next
    case (Inr r)
    obtain d ns p where r: "r = (d, ns, p)" by (cases r) auto
    from transaction_Inr[OF Inr[unfolded r]] obtain u where
      u: "users (db w) (req_userId req) = Some u" "d = committed_db e req a u (db w)"
         "ns = total_score u + scoreReward a"
         "p = isSuspiciousJump e (req_userId req) ns (total_score u) a" by blast
    have ac: "after_commit e req a ns p (w\<lparr>db := d\<rparr>) = (w', Json 200 body)"
      using Gate_pass Inr r assms by (simp add: completeAction_def)
    from after_commit_200[OF ac] show ?thesis
      using u gate_pass_action[OF Gate_pass] Gate_pass by simp
  qed
qed

text \<open>
  The two parts of a run that follow the gate, taken alone: the transaction stores the old
  score plus the reward and hands that score on; the part after the commit broadcasts the
  score it was handed and leaves the database as it finds it.
\<close>

lemma advance_commit:
  assumes "advance e req (Gated a) w = (Committed a' ns p, w')"
  shows "a' = a \<and> (\<exists>u. users (db w) (req_userId req) = Some u
            \<and> ns = total_score u + scoreReward a
            \<and> db w' = committed_db e req a u (db w)
            \<and> redis w' = redis w \<and> emitted w' = emitted w)"
proof (cases "transaction e req a (db w)")
  case (Inl s)
  then show ?thesis using assms by simp
next
  case (Inr r)
  obtain d n q where r: "r = (d, n, q)" by (cases r) auto
  from transaction_Inr[OF Inr[unfolded r]] obtain u where
    u: "users (db w) (req_userId req) = Some u" "d = committed_db e req a u (db w)"
       "n = total_score u + scoreReward a" by blast
  show ?thesis using assms Inr r u by auto
qed

lemma advance_emit:
  assumes "advance e req (Committed a ns p) w = (Finished (Json 200 body), w')"
  shows "body = Success_body ns (scoreReward a) p \<and> db w' = db w
           \<and> emitted w' = emitted w @ [\<lparr>update_userId = req_userId req, update_newScore = ns,
                                          update_scoreAdded = scoreReward a,
                                          update_timestamp = emit_date e\<rparr>]"
proof -
  have "after_commit e req a ns p w = (w', Json 200 body)"
    using assms by (simp split: prod.splits)
  from after_commit_200[OF this] show ?thesis by simp
qed

text \<open>
  Claim C3, as the handler has it. The \<^verbatim>\<open>users\<close> table has no version column and the
  broadcast carries none. Every accepted submission (reply 200) writes the old score plus
  the action's reward, which is strictly more when the reward is positive, and sets
  \<^verbatim>\<open>updated_at\<close> to the database clock; the broadcast it emits carries as \<^verbatim>\<open>newScore\<close>
  the score that this commit stored, and the reply reports the same score. When the
  handler runs alone that score is still the stored one when the broadcast is emitted
  (first part). When other submissions run in between, the same holds part by part: the
  transaction stores old score plus reward and hands that score on, with no broadcast
  yet (second part); the broadcast, emitted after the row lock is released, carries the
  score handed on and does not touch the database (third part). Nothing makes the stored
  score at that later moment the one handed on.
\<close>

theorem commit_writes_score_and_clock:
  "(completeAction e req w = (w', Json 200 body) \<longrightarrow>
      (\<exists>a u u'. actions (db w) (body_actionId req) = Some a
           \<and> users (db w) (req_userId req) = Some u
           \<and> users (db w') (req_userId req) = Some u'
           \<and> total_score u' = total_score u + scoreReward a
           \<and> (0 < scoreReward a \<longrightarrow> total_score u < total_score u')
           \<and> updated_at u' = sql_now e
           \<and> created_at u' = created_at u
           \<and> emitted w' = emitted w @ [\<lparr>update_userId = req_userId req,
                                          update_newScore = total_score u',
                                          update_scoreAdded = scoreReward a,
                                          update_timestamp = emit_date e\<rparr>]
           \<and> (\<exists>flag. body = Success_body (total_score u') (scoreReward a) flag)))
   \<and> (advance e req (Gated a) w = (Committed a' newScore isProbable, w') \<longrightarrow>
        a' = a
        \<and> (\<exists>u u'. users (db w) (req_userId req) = Some u
              \<and> users (db w') (req_userId req) = Some u'
              \<and> total_score u' = total_score u + scoreReward a
              \<and> (0 < scoreReward a \<longrightarrow> total_score u < total_score u')
              \<and> updated_at u' = sql_now e
              \<and> created_at u' = created_at u
              \<and> newScore = total_score u'
              \<and> emitted w' = emitted w))
   \<and> (advance e req (Committed a newScore isProbable) w = (Finished (Json 200 body), w') \<longrightarrow>
        db w' = db w
        \<and> emitted w' = emitted w @ [\<lparr>update_userId = req_userId req,
                                       update_newScore = newScore,
                                       update_scoreAdded = scoreReward a,
                                       update_timestamp = emit_date e\<rparr>]
        \<and> body = Success_body newScore (scoreReward a) isProbable)"
proof -
  have 1: "\<exists>a u u'. actions (db w) (body_actionId req) = Some a
           \<and> users (db w) (req_userId req) = Some u
           \<and> users (db w') (req_userId req) = Some u'
           \<and> total_score u' = total_score u + scoreReward a
           \<and> (0 < scoreReward a \<longrightarrow> total_score u < total_score u')
           \<and> updated_at u' = sql_now e
           \<and> created_at u' = created_at u
           \<and> emitted w' = emitted w @ [\<lparr>update_userId = req_userId req,
                                          update_newScore = total_score u',
                                          update_scoreAdded = scoreReward a,
                                          update_timestamp = emit_date e\<rparr>]
           \<and> (\<exists>flag. body = Success_body (total_score u') (scoreReward a) flag)"
    if run: "completeAction e req w = (w', Json 200 body)"
  proof -
    from completeAction_200[OF run] obtain a u where
      f: "actions (db w) (body_actionId req) = Some a" "users (db w) (req_userId req) = Some u"
         "body = Success_body (total_score u + scoreReward a) (scoreReward a)
                  (isSuspiciousJump e (req_userId req) (total_score u + scoreReward a) (total_score u) a)"
         "db w' = committed_db e req a u (db w)"
         "emitted w' = emitted w @ [\<lparr>update_userId = req_userId req,
                                            update_newScore = total_score u + scoreReward a,
                                            update_scoreAdded = scoreReward a,
                                            update_timestamp = emit_date e\<rparr>]"
      by blast
    let ?u' = "u\<lparr>total_score := total_score u + scoreReward a, updated_at := sql_now e\<rparr>"
    have "users (db w') (req_userId req) = Some ?u'" using f(4) by (simp add: committed_db_def)
    then show ?thesis using f by (intro exI[of _ a] exI[of _ u] exI[of _ ?u']) simp
  qed
  have 2: "a' = a
        \<and> (\<exists>u u'. users (db w) (req_userId req) = Some u
              \<and> users (db w') (req_userId req) = Some u'
              \<and> total_score u' = total_score u + scoreReward a
              \<and> (0 < scoreReward a \<longrightarrow> total_score u < total_score u')
              \<and> updated_at u' = sql_now e
              \<and> created_at u' = created_at u
              \<and> newScore = total_score u'
              \<and> emitted w' = emitted w)"
    if step: "advance e req (Gated a) w = (Committed a' newScore isProbable, w')"
  proof -
    from advance_commit[OF step] obtain u where
      f: "a' = a" "users (db w) (req_userId req) = Some u"
         "newScore = total_score u + scoreReward a"
         "db w' = committed_db e req a u (db w)" "emitted w' = emitted w"
      by blast
    let ?u' = "u\<lparr>total_score := total_score u + scoreReward a, updated_at := sql_now e\<rparr>"
    have "users (db w') (req_userId req) = Some ?u'" using f(4) by (simp add: committed_db_def)
    then show ?thesis using f by (intro conjI exI[of _ u] exI[of _ ?u']) simp_all
  qed
  have 3: "db w' = db w
        \<and> emitted w' = emitted w @ [\<lparr>update_userId = req_userId req,
                                       update_newScore = newScore,
                                       update_scoreAdded = scoreReward a,
                                       update_timestamp = emit_date e\<rparr>]
        \<and> body = Success_body newScore (scoreReward a) isProbable"
    if step: "advance e req (Committed a newScore isProbable) w = (Finished (Json 200 body), w')"
    using advance_emit[OF step] by simp
  show ?thesis using 1 2 3 by blast
qed

theorem commit_writes_score_and_clock_witness:
  "(\<exists>u'. users (db (fst (completeAction (example_env 10000) example_request example_world))) ''u1''
            = Some u'
        \<and> total_score u' = 50 \<and> updated_at u' = 10002
        \<and> emitted (fst (completeAction (example_env 10000) example_request example_world))
            = [\<lparr>update_userId = ''u1'', update_newScore = total_score u', update_scoreAdded = 50,
                update_timestamp = 10005\<rparr>])
   \<and> (\<exists>u'. users (db (snd (advance (example_env 10000) example_request
                 (Gated \<lparr>scoreReward = 50, cooldown_seconds = 30\<rparr>) example_world))) ''u1''
            = Some u'
        \<and> total_score u' = 50 \<and> updated_at u' = 10002)
   \<and> emitted (snd (advance (example_env 10000) example_request
                 (Committed \<lparr>scoreReward = 50, cooldown_seconds = 30\<rparr> 50 False)
                 (snd (advance (example_env 10000) example_request
                    (Gated \<lparr>scoreReward = 50, cooldown_seconds = 30\<rparr>) example_world))))
       = [\<lparr>update_userId = ''u1'', update_newScore = 50, update_scoreAdded = 50,
           update_timestamp = 10005\<rparr>]"
proof -
  let ?e = "example_env 10000"
  let ?a = "\<lparr>scoreReward = 50, cooldown_seconds = 30\<rparr>"
  let ?w1 = "fst (completeAction ?e example_request example_world)"
  let ?wc = "snd (advance ?e example_request (Gated ?a) example_world)"
  let ?wf = "snd (advance ?e example_request (Committed ?a 50 False) ?wc)"
  have run: "completeAction ?e example_request example_world
               = (?w1, Json 200 (Success_body 50 50 False))"
    by (simp add: handler_defs example_defs)
  have commit: "advance ?e example_request (Gated ?a) example_world = (Committed ?a 50 False, ?wc)"
    by (simp add: handler_defs example_defs)
  have emit: "advance ?e example_request (Committed ?a 50 False) ?wc
                = (Finished (Json 200 (Success_body 50 50 False)), ?wf)"
    by (simp add: handler_defs example_defs)
  have old: "users (db example_world) (req_userId example_request)
               = Some \<lparr>total_score = 0, created_at = 1000, updated_at = 1000\<rparr>"
    and act: "actions (db example_world) (body_actionId example_request) = Some ?a"
    and uid: "req_userId example_request = ''u1''"
    and clk: "sql_now ?e = 10002" "emit_date ?e = 10005"
    by (simp_all add: example_defs)
  from commit_writes_score_and_clock[where e = ?e and req = example_request
      and w = example_world and w' = ?w1 and body = "Success_body 50 50 False"] run
  obtain a u u' where
    f: "actions (db example_world) (body_actionId example_request) = Some a"
       "users (db example_world) (req_userId example_request) = Some u"
       "users (db ?w1) (req_userId example_request) = Some u'"
       "total_score u' = total_score u + scoreReward a"
       "updated_at u' = sql_now ?e"
       "emitted ?w1 = emitted example_world @ [\<lparr>update_userId = req_userId example_request,
                                          update_newScore = total_score u',
                                          update_scoreAdded = scoreReward a,
                                          update_timestamp = emit_date ?e\<rparr>]"
    by blast
  have 1: "\<exists>u'. users (db ?w1) ''u1'' = Some u' \<and> total_score u' = 50 \<and> updated_at u' = 10002
        \<and> emitted ?w1 = [\<lparr>update_userId = ''u1'', update_newScore = total_score u',
                            update_scoreAdded = 50, update_timestamp = 10005\<rparr>]"
  proof -
    have a: "a = ?a" using f(1) act by simp
    have u: "u = \<lparr>total_score = 0, created_at = 1000, updated_at = 1000\<rparr>"
      using f(2) old by simp
    have t: "total_score u' = 50" using f(4) a u by simp
    have c: "updated_at u' = 10002" using f(5) clk by simp
    have s: "users (db ?w1) ''u1'' = Some u'" using f(3) uid by simp
    have "emitted example_world = []" by (simp add: example_world_def)
    with f(6) a uid clk
    have m: "emitted ?w1 = [\<lparr>update_userId = ''u1'', update_newScore = total_score u',
                            update_scoreAdded = 50, update_timestamp = 10005\<rparr>]"
      by simp
    from s t c m show ?thesis by blast
  qed
  from commit_writes_score_and_clock[where e = ?e and req = example_request and a = ?a
      and w = example_world and a' = ?a and newScore = 50 and isProbable = False and w' = ?wc]
    commit
  obtain v v' where
    g: "users (db example_world) (req_userId example_request) = Some v"
       "users (db ?wc) (req_userId example_request) = Some v'"
       "total_score v' = total_score v + scoreReward ?a"
       "updated_at v' = sql_now ?e"
    by blast
  have 2: "\<exists>u'. users (db ?wc) ''u1'' = Some u' \<and> total_score u' = 50 \<and> updated_at u' = 10002"
  proof -
    have v: "v = \<lparr>total_score = 0, created_at = 1000, updated_at = 1000\<rparr>"
      using g(1) old by simp
    have t: "total_score v' = 50" using g(3) v by simp
    have c: "updated_at v' = 10002" using g(4) clk by simp
    have s: "users (db ?wc) ''u1'' = Some v'" using g(2) uid by simp
    from s t c show ?thesis by blast
  qed
  from commit_writes_score_and_clock[where e = ?e and req = example_request and a = ?a
      and w = ?wc and newScore = 50 and isProbable = False
      and body = "Success_body 50 50 False" and w' = ?wf] emit
  have "emitted ?wf = emitted ?wc @ [\<lparr>update_userId = req_userId example_request,
                                       update_newScore = 50,
                                       update_scoreAdded = scoreReward ?a,
                                       update_timestamp = emit_date ?e\<rparr>]"
    by blast
  moreover have "emitted ?wc = []" by (simp add: handler_defs example_defs)
  ultimately have 3: "emitted ?wf = [\<lparr>update_userId = ''u1'', update_newScore = 50,
                                       update_scoreAdded = 50, update_timestamp = 10005\<rparr>]"
    using uid clk by simp
  show ?thesis using 1 2 3 by blast
qed

text \<open>
  The claim as stated fails twice. After an accepted submission no column of the user's
  row is its old value plus one (the score went from 0 to 50, \<^verbatim>\<open>updated_at\<close> from 1000 to
  the database clock's 10002), and the broadcast's only stamp, 10005, is not a stored
  value. And a broadcast may describe a write that is no longer the stored one: with two
  accepted submissions of the same user interleaved so that the second commits first
  (stored 30), the first commits next (stored 80) and broadcasts 80, the second then
  broadcasts \<^verbatim>\<open>newScore\<close> 30 and caches 30 while the stored score is 80.
\<close>

theorem no_version_counter_counterexample:
  "snd (completeAction (example_env 10000) example_request example_world)
      = Json 200 (Success_body 50 50 False)
   \<and> users (db example_world) ''u1''
      = Some \<lparr>total_score = 0, created_at = 1000, updated_at = 1000\<rparr>
   \<and> users (db (fst (completeAction (example_env 10000) example_request example_world))) ''u1''
      = Some \<lparr>total_score = 50, created_at = 1000, updated_at = 10002\<rparr>
   \<and> emitted (fst (completeAction (example_env 10000) example_request example_world))
      = [\<lparr>update_userId = ''u1'', update_newScore = 50, update_scoreAdded = 50,
          update_timestamp = 10005\<rparr>]
   \<and> map_option updated_at
        (users (db (fst (completeAction (example_env 10000) example_request example_world))) ''u1'')
      \<noteq> map_option (\<lambda>u. updated_at u + 1) (users (db example_world) ''u1'')
   \<and> map_option total_score
        (users (db (fst (completeAction (example_env 10000) example_request example_world))) ''u1'')
      \<noteq> map_option (\<lambda>u. total_score u + 1) (users (db example_world) ''u1'')
   \<and> map_option created_at
        (users (db (fst (completeAction (example_env 10000) example_request example_world))) ''u1'')
      \<noteq> map_option (\<lambda>u. created_at u + 1) (users (db example_world) ''u1'')
   \<and> map (\<lambda>ev. Some (update_timestamp ev))
        (emitted (fst (completeAction (example_env 10000) example_request example_world)))
      \<noteq> [map_option updated_at
           (users (db (fst (completeAction (example_env 10000) example_request example_world)))
              ''u1'')]
   \<and> map update_newScore
        (emitted (snd (run_schedule example_submissions [0, 1, 1, 0, 0] example_world))) = [80]
   \<and> map_option total_score
        (users (db (snd (run_schedule example_submissions [0, 1, 1, 0, 0] example_world))) ''u1'')
      = Some 80
   \<and> map update_newScore
        (emitted (snd (run_schedule example_submissions [0, 1, 1, 0, 0, 1] example_world)))
      = [80, 30]
   \<and> map_option total_score
        (users (db (snd (run_schedule example_submissions [0, 1, 1, 0, 0, 1] example_world))) ''u1'')
      = Some 80
   \<and> user_score (redis (snd (run_schedule example_submissions [0, 1, 1, 0, 0, 1] example_world)))
        ''u1'' = Some 30
   \<and> fst (run_schedule example_submissions [0, 1, 1, 0, 0, 1] example_world)
      = [Finished (Json 200 (Success_body 80 50 False)),
         Finished (Json 200 (Success_body 30 30 False))]"
  by (simp add: run_schedule_def schedule_step_def example_submissions_def handler_defs
      example_defs)

section \<open>Properties of the anomaly scorer\<close>

lemmas scorer_defs = detectAnomalies_def check_score_jump_def check_new_user_def
  check_action_rate_def check_geographic_def flag_def avgReward_def Let_def

lemma jump_iff:
  "score_jump_too_large rd u r \<longleftrightarrow>
     (case avgReward (getUserScoreHistory rd u 10) of None \<Rightarrow> False | Some avg \<Rightarrow> of_int r > avg * 5)"
proof (cases "getUserScoreHistory rd u 10 = []")
  case True
  then show ?thesis by (simp add: score_jump_too_large_def avgReward_def)
next
  case False
  then have pos: "(0::rat) < of_int (int (length (getUserScoreHistory rd u 10)))" by simp
  show ?thesis using False pos
    by (simp add: score_jump_too_large_def avgReward_def Let_def pos_divide_less_eq algebra_simps)
qed

lemma check_score_jump_effect:
  "fst (check_score_jump rd u r st) = fst st + weight (score_jump_too_large rd u r) 30"
  "length (snd (check_score_jump rd u r st))
     = length (snd st) + nat (weight (score_jump_too_large rd u r) 1)"
  by (simp_all add: check_score_jump_def jump_iff flag_def weight_def Let_def split: option.splits)

lemma check_new_user_effect:
  assumes "findUserById rd u = Some user"
  shows "fst (check_new_user rd user st) = fst st + weight (user_too_new rd u) 20"
    and "length (snd (check_new_user rd user st)) = length (snd st) + nat (weight (user_too_new rd u) 1)"
  using assms by (auto simp: check_new_user_def user_too_new_def flag_def weight_def)

lemma check_action_rate_effect:
  "fst (check_action_rate rd u st) = fst st + weight (rate_too_high rd u) 40"
  "length (snd (check_action_rate rd u st)) = length (snd st) + nat (weight (rate_too_high rd u) 1)"
  by (simp_all add: check_action_rate_def rate_too_high_def flag_def weight_def Let_def)

lemma check_geographic_effect:
  "fst (check_geographic rd u st) = fst st + weight (geographic_anomaly rd u) 25"
  "length (snd (check_geographic rd u st))
     = length (snd st) + nat (weight (geographic_anomaly rd u) 1)"
  by (simp_all add: check_geographic_def geographic_anomaly_def flag_def weight_def Let_def
      split: option.splits)

lemma detectAnomalies_report:
  assumes "findUserById rd u = Some user"
  shows "\<exists>rep. detectAnomalies rd u ns r = Inr rep
     \<and> anomalyScore rep = weight (score_jump_too_large rd u r) 30 + weight (user_too_new rd u) 20
            + weight (rate_too_high rd u) 40 + weight (geographic_anomaly rd u) 25
     \<and> length (reasons rep) = nat (weight (score_jump_too_large rd u r) 1)
            + nat (weight (user_too_new rd u) 1)
            + nat (weight (rate_too_high rd u) 1) + nat (weight (geographic_anomaly rd u) 1)
     \<and> (isSuspicious rep \<longleftrightarrow> 70 < anomalyScore rep)"
  using assms
  by (simp add: detectAnomalies_def Let_def check_score_jump_effect check_new_user_effect
        check_action_rate_effect check_geographic_effect)

lemma detectAnomalies_no_user:
  "findUserById rd u = None \<Longrightarrow> detectAnomalies rd u ns r = Inl TypeError"
  by (simp add: detectAnomalies_def Let_def)

text \<open>
  Claim C4, as the scorer has it. Whenever \<^verbatim>\<open>detectAnomalies\<close> returns a report, its
  \<^verbatim>\<open>anomalyScore\<close> is the sum of the weights of exactly the checks that fire: 30 for a
  reward above five times the average of the last ten rewards, 20 for an account younger
  than 24 hours, 40 for more than 20 actions in the last five minutes, 25 for a last
  address in another country than the request's. The sum is not capped: it lies between 0
  and 115. One reason is pushed per firing check, and \<^verbatim>\<open>isSuspicious\<close> says whether the
  sum is above 70.
\<close>

theorem anomaly_score_is_sum_of_weights:
  assumes "detectAnomalies rd u ns r = Inr rep"
  shows "anomalyScore rep = weight (score_jump_too_large rd u r) 30 + weight (user_too_new rd u) 20
            + weight (rate_too_high rd u) 40 + weight (geographic_anomaly rd u) 25
     \<and> 0 \<le> anomalyScore rep \<and> anomalyScore rep \<le> 115
     \<and> (isSuspicious rep \<longleftrightarrow> 70 < anomalyScore rep)
     \<and> length (reasons rep) = nat (weight (score_jump_too_large rd u r) 1)
            + nat (weight (user_too_new rd u) 1)
            + nat (weight (rate_too_high rd u) 1) + nat (weight (geographic_anomaly rd u) 1)"
proof -
  obtain user where user: "findUserById rd u = Some user"
    using assms detectAnomalies_no_user[of rd u ns r] by (cases "findUserById rd u") auto
  from detectAnomalies_report[OF user, of ns r] assms
  have rep: "anomalyScore rep = weight (score_jump_too_large rd u r) 30 + weight (user_too_new rd u) 20
            + weight (rate_too_high rd u) 40 + weight (geographic_anomaly rd u) 25"
    "length (reasons rep) = nat (weight (score_jump_too_large rd u r) 1)
            + nat (weight (user_too_new rd u) 1)
            + nat (weight (rate_too_high rd u) 1) + nat (weight (geographic_anomaly rd u) 1)"
    "isSuspicious rep \<longleftrightarrow> 70 < anomalyScore rep"
    by auto
  have "0 \<le> anomalyScore rep \<and> anomalyScore rep \<le> 115"
    unfolding rep(1) by (simp add: weight_def)
  then show ?thesis using rep by blast
qed

theorem anomaly_score_is_sum_of_weights_witness:
  "\<exists>rep. detectAnomalies (example_reads 90000000 ''1.1.1.1'') ''u1'' 100 51 = Inr rep
     \<and> anomalyScore rep = 70 \<and> \<not> isSuspicious rep \<and> length (reasons rep) = 2"
proof -
  let ?rd = "example_reads 90000000 ''1.1.1.1''"
  obtain rep where rep: "detectAnomalies ?rd ''u1'' 100 51 = Inr rep"
    by (simp add: scorer_defs example_reads_def)
  have t: "score_jump_too_large ?rd ''u1'' 51" "\<not> user_too_new ?rd ''u1''"
    "rate_too_high ?rd ''u1''" "\<not> geographic_anomaly ?rd ''u1''"
    by (simp_all add: score_jump_too_large_def user_too_new_def rate_too_high_def
        geographic_anomaly_def example_reads_def)
  from anomaly_score_is_sum_of_weights[OF rep] t
  have "anomalyScore rep = 70 \<and> \<not> isSuspicious rep \<and> length (reasons rep) = 2"
    by (simp add: weight_def)
  with rep show ?thesis by blast
qed

text \<open>
  The claim as stated fails: when all four checks fire the returned score is 115, above 100.
\<close>

theorem anomaly_score_exceeds_100_counterexample:
  "map_sum (\<lambda>err. err) anomalyScore (detectAnomalies (example_reads 2000 ''2.2.2.2'') ''u1'' 100 51)
     = Inr 115
   \<and> score_jump_too_large (example_reads 2000 ''2.2.2.2'') ''u1'' 51
   \<and> user_too_new (example_reads 2000 ''2.2.2.2'') ''u1''
   \<and> rate_too_high (example_reads 2000 ''2.2.2.2'') ''u1''
   \<and> geographic_anomaly (example_reads 2000 ''2.2.2.2'') ''u1''"
  by (simp add: scorer_defs example_reads_def score_jump_too_large_def user_too_new_def
        rate_too_high_def geographic_anomaly_def)

lemma check_score_jump_cong:
  "getUserScoreHistory rd u 10 = getUserScoreHistory rd' u 10 \<Longrightarrow>
   check_score_jump rd u r st = check_score_jump rd' u r st"
  by (simp add: check_score_jump_def)

lemma check_new_user_cong:
  "scorer_date_now rd = scorer_date_now rd' \<Longrightarrow> created_at user = created_at user' \<Longrightarrow>
   check_new_user rd user st = check_new_user rd' user' st"
  by (simp add: check_new_user_def)

lemma check_action_rate_cong:
  "getActionCount rd u 300 = getActionCount rd' u 300 \<Longrightarrow>
   check_action_rate rd u st = check_action_rate rd' u st"
  by (simp add: check_action_rate_def)

lemma check_geographic_cong:
  "getLastClientIP rd u = getLastClientIP rd' u \<Longrightarrow> scorer_req_ip rd = scorer_req_ip rd' \<Longrightarrow>
   geolocate rd (scorer_req_ip rd) = geolocate rd' (scorer_req_ip rd) \<Longrightarrow>
   (\<forall>lastIP. getLastClientIP rd u = Some lastIP \<longrightarrow> geolocate rd lastIP = geolocate rd' lastIP) \<Longrightarrow>
   check_geographic rd u st = check_geographic rd' u st"
  by (simp add: check_geographic_def Let_def split: option.splits)

text \<open>
  Rules for walking through the listing with its awaits: what holds of every branch
  holds of a \<^verbatim>\<open>const\<close> binding, of a null test and of an \<^verbatim>\<open>if\<close>; what every helper
  preserves is preserved across an await; and an await on a promise that resolves goes on
  with the rest.
\<close>

lemma let_rule: "(\<And>x. Q (f x)) \<Longrightarrow> Q (Let a f)"
  by simp

lemma option_rule: "(v = None \<Longrightarrow> Q n) \<Longrightarrow> (\<And>x. v = Some x \<Longrightarrow> Q (f x)) \<Longrightarrow> Q (case_option n f v)"
  by (cases v) simp_all

lemma if_rule: "Q a \<Longrightarrow> Q b \<Longrightarrow> Q (if c then a else b)"
  by simp

lemma await_frame:
  assumes "P (snd call)" and "\<And>v t. P t \<Longrightarrow> P (snd (rest v t))"
  shows "P (snd (await call c rest))"
proof (cases call)
  case (Pair x s)
  then show ?thesis using assms by (cases x) (simp_all add: await_def)
qed

lemma await_resolves:
  assumes "fst call \<noteq> Rejected" and "\<And>v t. fst call = Resolved v \<Longrightarrow> Q (rest v t)"
  shows "Q (await call c rest)"
proof (cases call)
  case (Pair x s)
  then show ?thesis using assms by (cases x) (simp_all add: await_def)
qed

lemma detectAnomalies_async_frame:
  assumes init: "P s"
    and h1: "\<And>x n t. P t \<Longrightarrow> P (snd (await_getUserScoreHistory hp x n t))"
    and h2: "\<And>x t. P t \<Longrightarrow> P (snd (await_findById hp x t))"
    and h3: "\<And>x n t. P t \<Longrightarrow> P (snd (await_getActionCount hp x n t))"
    and h4: "\<And>x t. P t \<Longrightarrow> P (snd (await_getLastClientIP hp x t))"
    and h5: "\<And>x t. P t \<Longrightarrow> P (snd (await_geolocate hp x t))"
  shows "P (snd (detectAnomalies_async hp now addr userId newScore actionReward s))"
  unfolding detectAnomalies_async_def
  apply (rule await_frame)
   apply (rule h1, rule init)
  apply (rule let_rule[where Q = "\<lambda>r. P (snd r)"])
  apply (rule await_frame)
   apply (erule h2)
  apply (rule option_rule[where Q = "\<lambda>r. P (snd r)"])
   apply (simp only: snd_conv)
  apply (rule let_rule[where Q = "\<lambda>r. P (snd r)"])
  apply (rule await_frame)
   apply (erule h3)
  apply (rule let_rule[where Q = "\<lambda>r. P (snd r)"])
  apply (rule await_frame)
   apply (erule h4)
  apply (rule option_rule[where Q = "\<lambda>r. P (snd r)"])
   apply (simp only: snd_conv)
  apply (rule if_rule[where Q = "\<lambda>r. P (snd r)"])
   apply (rule await_frame)
    apply (erule h5)
   apply (rule await_frame)
    apply (erule h5)
   apply (simp only: snd_conv)
  apply (simp only: snd_conv)
  done

lemma detectAnomalies_async_resolves:
  assumes h1: "\<And>x n t. fst (await_getUserScoreHistory hp x n t) \<noteq> Rejected"
    and h2: "\<And>x t. fst (await_findById hp x t) \<noteq> Rejected"
    and h3: "\<And>x n t. fst (await_getActionCount hp x n t) \<noteq> Rejected"
    and h4: "\<And>x t. fst (await_getLastClientIP hp x t) \<noteq> Rejected"
    and h5: "\<And>x t. fst (await_geolocate hp x t) \<noteq> Rejected"
    and null: "\<And>t. Q (Inl (Thrown TypeError), t)"
    and rep: "\<And>rep t. Q (Inr rep, t)"
  shows "Q (detectAnomalies_async hp now addr userId newScore actionReward s)"
  unfolding detectAnomalies_async_def
  apply (rule await_resolves, rule h1)
  apply (rule let_rule)
  apply (rule await_resolves, rule h2)
  apply (rule option_rule)
   apply (rule null)
  apply (rule let_rule)
  apply (rule await_resolves, rule h3)
  apply (rule let_rule)
  apply (rule await_resolves, rule h4)
  apply (rule option_rule)
   apply (rule rep)
  apply (rule if_rule)
   apply (rule await_resolves, rule h5)
   apply (rule await_resolves, rule h5)
   apply (rule rep)
  apply (rule rep)
  done

lemma detectAnomalies_async_reports:
  assumes h1: "\<And>x n t. fst (await_getUserScoreHistory hp x n t) \<noteq> Rejected"
    and h2: "\<And>x t. fst (await_findById hp x t) \<noteq> Rejected"
    and h3: "\<And>x n t. fst (await_getActionCount hp x n t) \<noteq> Rejected"
    and h4: "\<And>x t. fst (await_getLastClientIP hp x t) \<noteq> Rejected"
    and h5: "\<And>x t. fst (await_geolocate hp x t) \<noteq> Rejected"
    and user: "\<And>t. fst (await_findById hp userId t) \<noteq> Resolved None"
  shows "\<exists>rep. fst (detectAnomalies_async hp now addr userId newScore actionReward s) = Inr rep"
  unfolding detectAnomalies_async_def
  apply (rule await_resolves, rule h1)
  apply (rule let_rule)
  apply (rule await_resolves, rule h2)
  apply (rule option_rule)
   apply (simp add: user)
  apply (rule let_rule)
  apply (rule await_resolves, rule h3)
  apply (rule let_rule)
  apply (rule await_resolves, rule h4)
  apply (rule option_rule)
   apply simp
  apply (rule if_rule)
   apply (rule await_resolves, rule h5)
   apply (rule await_resolves, rule h5)
   apply simp
  apply simp
  done

lemma detectAnomalies_async_reading:
  "detectAnomalies_async (reading rd) (scorer_date_now rd) (scorer_req_ip rd) userId newScore
       actionReward s
     = (map_sum Thrown (\<lambda>rep. rep) (detectAnomalies rd userId newScore actionReward), s)"
  by (simp add: detectAnomalies_async_def await_def report_of_def reading_def detectAnomalies_def
      check_score_jump_def check_new_user_def check_action_rate_def check_geographic_def Let_def
      split: option.splits)

text \<open>
  Claim C6, as the scorer has it. \<^verbatim>\<open>detectAnomalies\<close> writes nothing itself: it changes
  state only through the five helpers it awaits, so every relation between states that
  each helper call keeps (and that is reflexive and transitive) holds between the state
  before and after the call (first part); when the helpers only read, the state after is
  the state before (second part). Its promise rejects only with the rejection of a
  helper or with the \<^verbatim>\<open>TypeError\<close> of a user that does not exist: when no helper
  rejects, it does not reject with a helper's rejection, and when moreover the lookup of
  the user never resolves to \<^verbatim>\<open>null\<close> it returns a report (third part). With helpers
  that answer from a table and only read, the call is the scorer on that table (fourth
  part). Its result is fixed by the reward together with what it reads for that user: the
  last ten rewards, the account's creation time, the count of actions in the last 300
  seconds, the last client address, the clock, the request's address, and the countries
  of those two addresses; two calls that agree on these return the same result, whatever
  \<^verbatim>\<open>newScore\<close> is passed (fifth part).
\<close>

theorem detectAnomalies_depends_only_on_reads:
  "((\<forall>t. R t t) \<and> (\<forall>t u v. R t u \<and> R u v \<longrightarrow> R t v)
      \<and> (\<forall>x n t. R t (snd (await_getUserScoreHistory hp x n t)))
      \<and> (\<forall>x t. R t (snd (await_findById hp x t)))
      \<and> (\<forall>x n t. R t (snd (await_getActionCount hp x n t)))
      \<and> (\<forall>x t. R t (snd (await_getLastClientIP hp x t)))
      \<and> (\<forall>x t. R t (snd (await_geolocate hp x t)))
     \<longrightarrow> R s (snd (detectAnomalies_async hp now addr userId newScore actionReward s)))
   \<and> ((\<forall>x n t. snd (await_getUserScoreHistory hp x n t) = t)
      \<and> (\<forall>x t. snd (await_findById hp x t) = t)
      \<and> (\<forall>x n t. snd (await_getActionCount hp x n t) = t)
      \<and> (\<forall>x t. snd (await_getLastClientIP hp x t) = t)
      \<and> (\<forall>x t. snd (await_geolocate hp x t) = t)
     \<longrightarrow> snd (detectAnomalies_async hp now addr userId newScore actionReward s) = s)
   \<and> ((\<forall>x n t. fst (await_getUserScoreHistory hp x n t) \<noteq> Rejected)
      \<and> (\<forall>x t. fst (await_findById hp x t) \<noteq> Rejected)
      \<and> (\<forall>x n t. fst (await_getActionCount hp x n t) \<noteq> Rejected)
      \<and> (\<forall>x t. fst (await_getLastClientIP hp x t) \<noteq> Rejected)
      \<and> (\<forall>x t. fst (await_geolocate hp x t) \<noteq> Rejected)
     \<longrightarrow> (\<forall>c. fst (detectAnomalies_async hp now addr userId newScore actionReward s)
                 \<noteq> Inl (Rejected_by c))
         \<and> ((\<forall>t. fst (await_findById hp userId t) \<noteq> Resolved None)
              \<longrightarrow> (\<exists>rep. fst (detectAnomalies_async hp now addr userId newScore actionReward s)
                           = Inr rep)))
   \<and> detectAnomalies_async (reading rd) (scorer_date_now rd) (scorer_req_ip rd) userId newScore
         actionReward s
       = (map_sum Thrown (\<lambda>rep. rep) (detectAnomalies rd userId newScore actionReward), s)
   \<and> (getUserScoreHistory rd userId 10 = getUserScoreHistory rd' userId 10
      \<and> map_option created_at (findUserById rd userId)
           = map_option created_at (findUserById rd' userId)
      \<and> getActionCount rd userId 300 = getActionCount rd' userId 300
      \<and> getLastClientIP rd userId = getLastClientIP rd' userId
      \<and> scorer_date_now rd = scorer_date_now rd'
      \<and> scorer_req_ip rd = scorer_req_ip rd'
      \<and> geolocate rd (scorer_req_ip rd) = geolocate rd' (scorer_req_ip rd)
      \<and> (\<forall>lastIP. getLastClientIP rd userId = Some lastIP
             \<longrightarrow> geolocate rd lastIP = geolocate rd' lastIP)
     \<longrightarrow> detectAnomalies rd userId newScore actionReward
           = detectAnomalies rd' userId newScore' actionReward
         \<and> detectAnomalies_async (reading rd) (scorer_date_now rd) (scorer_req_ip rd) userId
              newScore actionReward s
           = detectAnomalies_async (reading rd') (scorer_date_now rd') (scorer_req_ip rd') userId
              newScore' actionReward s)"
proof -
  have frame: "R s (snd (detectAnomalies_async hp now addr userId newScore actionReward s))"
    if refl: "\<forall>t. R t t" and trans: "\<forall>t u v. R t u \<and> R u v \<longrightarrow> R t v"
      and h: "\<forall>x n t. R t (snd (await_getUserScoreHistory hp x n t))"
        "\<forall>x t. R t (snd (await_findById hp x t))"
        "\<forall>x n t. R t (snd (await_getActionCount hp x n t))"
        "\<forall>x t. R t (snd (await_getLastClientIP hp x t))"
        "\<forall>x t. R t (snd (await_geolocate hp x t))"
    for R :: "'a \<Rightarrow> 'a \<Rightarrow> bool"
  proof (rule detectAnomalies_async_frame[where P = "R s"])
    show "R s s" using refl by simp
  next
    fix x n t assume "R s t"
    then show "R s (snd (await_getUserScoreHistory hp x n t))" using trans h(1) by blast
  next
    fix x t assume "R s t"
    then show "R s (snd (await_findById hp x t))" using trans h(2) by blast
  next
    fix x n t assume "R s t"
    then show "R s (snd (await_getActionCount hp x n t))" using trans h(3) by blast
  next
    fix x t assume "R s t"
    then show "R s (snd (await_getLastClientIP hp x t))" using trans h(4) by blast
  next
    fix x t assume "R s t"
    then show "R s (snd (await_geolocate hp x t))" using trans h(5) by blast
  qed
  have same: "snd (detectAnomalies_async hp now addr userId newScore actionReward s) = s"
    if h: "\<forall>x n t. snd (await_getUserScoreHistory hp x n t) = t"
        "\<forall>x t. snd (await_findById hp x t) = t"
        "\<forall>x n t. snd (await_getActionCount hp x n t) = t"
        "\<forall>x t. snd (await_getLastClientIP hp x t) = t"
        "\<forall>x t. snd (await_geolocate hp x t) = t"
    by (rule detectAnomalies_async_frame[where P = "\<lambda>t. t = s"]) (simp_all add: h)
  have resolves: "(\<forall>c. fst (detectAnomalies_async hp now addr userId newScore actionReward s)
                 \<noteq> Inl (Rejected_by c))
         \<and> ((\<forall>t. fst (await_findById hp userId t) \<noteq> Resolved None)
              \<longrightarrow> (\<exists>rep. fst (detectAnomalies_async hp now addr userId newScore actionReward s)
                           = Inr rep))"
    if h: "\<forall>x n t. fst (await_getUserScoreHistory hp x n t) \<noteq> Rejected"
        "\<forall>x t. fst (await_findById hp x t) \<noteq> Rejected"
        "\<forall>x n t. fst (await_getActionCount hp x n t) \<noteq> Rejected"
        "\<forall>x t. fst (await_getLastClientIP hp x t) \<noteq> Rejected"
        "\<forall>x t. fst (await_geolocate hp x t) \<noteq> Rejected"
  proof -
    have "\<forall>c. fst (detectAnomalies_async hp now addr userId newScore actionReward s)
                 \<noteq> Inl (Rejected_by c)"
      by (rule detectAnomalies_async_resolves[where Q = "\<lambda>r. \<forall>c. fst r \<noteq> Inl (Rejected_by c)"])
         (simp_all add: h)
    moreover have "\<exists>rep. fst (detectAnomalies_async hp now addr userId newScore actionReward s)
                           = Inr rep"
      if "\<forall>t. fst (await_findById hp userId t) \<noteq> Resolved None"
      by (rule detectAnomalies_async_reports) (simp_all add: h that)
    ultimately show ?thesis by blast
  qed
  have agree: "detectAnomalies rd userId newScore actionReward
           = detectAnomalies rd' userId newScore' actionReward
         \<and> detectAnomalies_async (reading rd) (scorer_date_now rd) (scorer_req_ip rd) userId
              newScore actionReward s
           = detectAnomalies_async (reading rd') (scorer_date_now rd') (scorer_req_ip rd') userId
              newScore' actionReward s"
    if hist: "getUserScoreHistory rd userId 10 = getUserScoreHistory rd' userId 10"
    and user: "map_option created_at (findUserById rd userId)
                 = map_option created_at (findUserById rd' userId)"
    and count: "getActionCount rd userId 300 = getActionCount rd' userId 300"
    and last: "getLastClientIP rd userId = getLastClientIP rd' userId"
    and clock: "scorer_date_now rd = scorer_date_now rd'"
    and addr: "scorer_req_ip rd = scorer_req_ip rd'"
    and geo1: "geolocate rd (scorer_req_ip rd) = geolocate rd' (scorer_req_ip rd)"
    and geo2: "\<forall>lastIP. getLastClientIP rd userId = Some lastIP
                 \<longrightarrow> geolocate rd lastIP = geolocate rd' lastIP"
  proof -
    have eq: "detectAnomalies rd userId newScore actionReward
           = detectAnomalies rd' userId newScore' actionReward"
    proof (cases "findUserById rd userId")
      case None
      then have "findUserById rd' userId = None" using user by simp
      with None show ?thesis by (simp add: detectAnomalies_def Let_def)
    next
      case (Some usr)
      then obtain usr' where usr': "findUserById rd' userId = Some usr'"
          "created_at usr = created_at usr'"
        using user by (cases "findUserById rd' userId") auto
      show ?thesis
        using Some usr' check_score_jump_cong[OF hist] check_new_user_cong[OF clock usr'(2)]
          check_action_rate_cong[OF count] check_geographic_cong[OF last addr geo1 geo2]
        by (simp add: detectAnomalies_def Let_def)
    qed
    then show ?thesis by (simp add: detectAnomalies_async_reading)
  qed
  show ?thesis
    using frame same resolves agree detectAnomalies_async_reading[of rd userId newScore actionReward s]
    by blast
qed

theorem detectAnomalies_depends_only_on_reads_witness:
  "(3::nat) \<le> snd (detectAnomalies_async (counting (example_reads 2000 ''2.2.2.2'')) 2000
                    ''2.2.2.2'' ''u1'' 100 51 3)
   \<and> snd (detectAnomalies_async (counting (example_reads 2000 ''2.2.2.2'')) 2000
            ''2.2.2.2'' ''u1'' 100 51 3) = 9
   \<and> snd (detectAnomalies_async (reading (example_reads 2000 ''2.2.2.2'')) 2000
            ''2.2.2.2'' ''u1'' 100 51 (3::nat)) = 3
   \<and> (\<forall>c. fst (detectAnomalies_async (reading (example_reads 2000 ''2.2.2.2'')) 2000
                 ''2.2.2.2'' ''u1'' 100 51 (3::nat)) \<noteq> Inl (Rejected_by c))
   \<and> (\<exists>rep. fst (detectAnomalies_async (reading (example_reads 2000 ''2.2.2.2'')) 2000
                  ''2.2.2.2'' ''u1'' 100 51 (3::nat)) = Inr rep)
   \<and> detectAnomalies (example_reads 2000 ''2.2.2.2'') ''u1'' 100 51
       = detectAnomalies ((example_reads 2000 ''2.2.2.2'')
            \<lparr>getUserScoreHistory := (\<lambda>userId n. if n = 10 then [10, 10] else []),
             getActionCount := (\<lambda>userId seconds. if seconds = 300 then 21 else 0)\<rparr>) ''u1'' 7 51
   \<and> detectAnomalies_async (reading (example_reads 2000 ''2.2.2.2'')) 2000 ''2.2.2.2'' ''u1''
         100 51 (3::nat)
       = detectAnomalies_async (reading ((example_reads 2000 ''2.2.2.2'')
            \<lparr>getUserScoreHistory := (\<lambda>userId n. if n = 10 then [10, 10] else []),
             getActionCount := (\<lambda>userId seconds. if seconds = 300 then 21 else 0)\<rparr>))
           2000 ''2.2.2.2'' ''u1'' 7 51 3"
proof -
  let ?rd = "example_reads 2000 ''2.2.2.2''"
  let ?rd' = "?rd\<lparr>getUserScoreHistory := (\<lambda>userId n. if n = 10 then [10, 10] else []),
           getActionCount := (\<lambda>userId seconds. if seconds = 300 then 21 else 0)\<rparr>"
  let ?count = "detectAnomalies_async (counting ?rd) 2000 ''2.2.2.2'' ''u1'' 100 51 (3::nat)"
  let ?read = "detectAnomalies_async (reading ?rd) 2000 ''2.2.2.2'' ''u1'' 100 51 (3::nat)"
  have steps: "(\<forall>t::nat. t \<le> t) \<and> (\<forall>t u v :: nat. t \<le> u \<and> u \<le> v \<longrightarrow> t \<le> v)
      \<and> (\<forall>x n t. t \<le> snd (await_getUserScoreHistory (counting ?rd) x n t))
      \<and> (\<forall>x t. t \<le> snd (await_findById (counting ?rd) x t))
      \<and> (\<forall>x n t. t \<le> snd (await_getActionCount (counting ?rd) x n t))
      \<and> (\<forall>x t. t \<le> snd (await_getLastClientIP (counting ?rd) x t))
      \<and> (\<forall>x t. t \<le> snd (await_geolocate (counting ?rd) x t))"
    by (simp add: counting_def)
  have readonly: "(\<forall>x n t::nat. snd (await_getUserScoreHistory (reading ?rd) x n t) = t)
      \<and> (\<forall>x t::nat. snd (await_findById (reading ?rd) x t) = t)
      \<and> (\<forall>x n t::nat. snd (await_getActionCount (reading ?rd) x n t) = t)
      \<and> (\<forall>x t::nat. snd (await_getLastClientIP (reading ?rd) x t) = t)
      \<and> (\<forall>x t::nat. snd (await_geolocate (reading ?rd) x t) = t)"
    by (simp add: reading_def)
  have resolve: "(\<forall>x n t::nat. fst (await_getUserScoreHistory (reading ?rd) x n t) \<noteq> Rejected)
      \<and> (\<forall>x t::nat. fst (await_findById (reading ?rd) x t) \<noteq> Rejected)
      \<and> (\<forall>x n t::nat. fst (await_getActionCount (reading ?rd) x n t) \<noteq> Rejected)
      \<and> (\<forall>x t::nat. fst (await_getLastClientIP (reading ?rd) x t) \<noteq> Rejected)
      \<and> (\<forall>x t::nat. fst (await_geolocate (reading ?rd) x t) \<noteq> Rejected)"
    by (simp add: reading_def)
  have user: "\<forall>t::nat. fst (await_findById (reading ?rd) ''u1'' t) \<noteq> Resolved None"
    by (simp add: reading_def example_reads_def)
  have h: "getUserScoreHistory ?rd ''u1'' 10 = getUserScoreHistory ?rd' ''u1'' 10
    \<and> map_option created_at (findUserById ?rd ''u1'') = map_option created_at (findUserById ?rd' ''u1'')
    \<and> getActionCount ?rd ''u1'' 300 = getActionCount ?rd' ''u1'' 300
    \<and> getLastClientIP ?rd ''u1'' = getLastClientIP ?rd' ''u1''
    \<and> scorer_date_now ?rd = scorer_date_now ?rd'
    \<and> scorer_req_ip ?rd = scorer_req_ip ?rd'
    \<and> geolocate ?rd (scorer_req_ip ?rd) = geolocate ?rd' (scorer_req_ip ?rd)
    \<and> (\<forall>lastIP. getLastClientIP ?rd ''u1'' = Some lastIP \<longrightarrow> geolocate ?rd lastIP = geolocate ?rd' lastIP)"
    by (simp add: example_reads_def)
  have clk: "scorer_date_now ?rd = 2000" "scorer_req_ip ?rd = ''2.2.2.2''"
    "scorer_date_now ?rd' = 2000" "scorer_req_ip ?rd' = ''2.2.2.2''"
    by (simp_all add: example_reads_def)
  have 1: "3 \<le> snd ?count"
    using detectAnomalies_depends_only_on_reads[where R = "(\<le>)" and hp = "counting ?rd"
        and s = "3::nat" and now = 2000 and addr = "''2.2.2.2''" and userId = "''u1''"
        and newScore = 100 and actionReward = 51] steps
    by blast
  have 2: "snd ?count = 9"
    by (simp add: detectAnomalies_async_def await_def counting_def example_reads_def Let_def)
  have 3: "snd ?read = 3"
    using detectAnomalies_depends_only_on_reads[where hp = "reading ?rd"
        and s = "3::nat" and now = 2000 and addr = "''2.2.2.2''" and userId = "''u1''"
        and newScore = 100 and actionReward = 51] readonly
    by blast
  have 4: "(\<forall>c. fst ?read \<noteq> Inl (Rejected_by c)) \<and> (\<exists>rep. fst ?read = Inr rep)"
    using detectAnomalies_depends_only_on_reads[where hp = "reading ?rd"
        and s = "3::nat" and now = 2000 and addr = "''2.2.2.2''" and userId = "''u1''"
        and newScore = 100 and actionReward = 51] resolve user
    by blast
  have 5: "detectAnomalies ?rd ''u1'' 100 51 = detectAnomalies ?rd' ''u1'' 7 51
     \<and> detectAnomalies_async (reading ?rd) (scorer_date_now ?rd) (scorer_req_ip ?rd) ''u1'' 100 51 (3::nat)
       = detectAnomalies_async (reading ?rd') (scorer_date_now ?rd') (scorer_req_ip ?rd') ''u1'' 7 51 3"
    using detectAnomalies_depends_only_on_reads[where rd = ?rd and rd' = ?rd'
        and s = "3::nat" and userId = "''u1''" and newScore = 100 and newScore' = 7
        and actionReward = 51] h
    by blast
  show ?thesis using 1 2 3 4 5 unfolding clk by blast
qed

text \<open>
  The claim as stated fails: the clock and the request's address are not among the four
  inputs, yet with the same user, reward and history the score is 90 for an account seen
  one second after its creation and 70 a day later, and 115 from another address. And
  for a user that does not exist the call rejects, with a \<^verbatim>\<open>TypeError\<close>.
\<close>

theorem detectAnomalies_reads_clock_counterexample:
  "map_sum (\<lambda>err. err) anomalyScore (detectAnomalies (example_reads 2000 ''1.1.1.1'') ''u1'' 100 51)
     = Inr 90
   \<and> map_sum (\<lambda>err. err) anomalyScore
        (detectAnomalies (example_reads 90000000 ''1.1.1.1'') ''u1'' 100 51) = Inr 70
   \<and> map_sum (\<lambda>err. err) anomalyScore
        (detectAnomalies (example_reads 2000 ''2.2.2.2'') ''u1'' 100 51) = Inr 115
   \<and> getUserScoreHistory (example_reads 2000 ''1.1.1.1'')
        = getUserScoreHistory (example_reads 90000000 ''1.1.1.1'')
   \<and> getUserScoreHistory (example_reads 2000 ''1.1.1.1'')
        = getUserScoreHistory (example_reads 2000 ''2.2.2.2'')
   \<and> detectAnomalies (example_reads 2000 ''1.1.1.1'') ''u1'' 100 51
        \<noteq> detectAnomalies (example_reads 90000000 ''1.1.1.1'') ''u1'' 100 51
   \<and> map_sum (\<lambda>err. err) anomalyScore
        (fst (detectAnomalies_async (reading (example_reads 2000 ''1.1.1.1'')) 2000 ''1.1.1.1''
           ''u1'' 100 51 (0::nat))) = Inr 90
   \<and> map_sum (\<lambda>err. err) anomalyScore
        (fst (detectAnomalies_async (reading (example_reads 2000 ''1.1.1.1'')) 90000000 ''1.1.1.1''
           ''u1'' 100 51 (0::nat))) = Inr 70
   \<and> detectAnomalies_async (reading (example_reads 2000 ''1.1.1.1'')) 2000 ''1.1.1.1''
        ''u2'' 100 51 (0::nat) = (Inl (Thrown TypeError), 0)"
  by (simp add: scorer_defs example_reads_def detectAnomalies_async_def await_def report_of_def
      reading_def)

text \<open>
  The handler does not let a suspicion block a submission: the flag returned by
  \<^verbatim>\<open>isSuspiciousJump\<close> reaches the audit row and the reply only, never the score or the
  completion rows.
\<close>

lemma gate_ignores_suspicion: "gate (e\<lparr>isSuspiciousJump := f\<rparr>) req w = gate e req w"
  by (simp add: gate_def split: option.splits)

lemma transaction_ignores_suspicion:
  "map_sum (\<lambda>s. s) (\<lambda>(d, newScore, isProbable). (users d, user_action_completions d, newScore))
     (transaction (e\<lparr>isSuspiciousJump := f\<rparr>) req a d)
   = map_sum (\<lambda>s. s) (\<lambda>(d, newScore, isProbable). (users d, user_action_completions d, newScore))
     (transaction e req a d)"
  by (simp add: transaction_def Let_def split: option.splits)

lemma suspicion_never_blocks:
  "users (db (fst (completeAction (e\<lparr>isSuspiciousJump := f\<rparr>) req w)))
     = users (db (fst (completeAction e req w)))
   \<and> user_action_completions (db (fst (completeAction (e\<lparr>isSuspiciousJump := f\<rparr>) req w)))
     = user_action_completions (db (fst (completeAction e req w)))"
proof (cases "gate e req w")
  case (Gate_stop out)
  then show ?thesis using gate_ignores_suspicion[where e=e and f=f and req=req and w=w] by (simp add: completeAction_def)
next
  case (Gate_pass a)
  then have g: "gate (e\<lparr>isSuspiciousJump := f\<rparr>) req w = Gate_pass a"
    using gate_ignores_suspicion[where e=e and f=f and req=req and w=w] by simp
  show ?thesis
    using transaction_ignores_suspicion[where e=e and f=f and req=req and a=a and d="db w"] Gate_pass g
    by (cases "transaction e req a (db w)"; cases "transaction (e\<lparr>isSuspiciousJump := f\<rparr>) req a (db w)")
       (auto simp: completeAction_def after_commit_db)
qed

section \<open>Properties of submissions in flight together\<close>

lemmas run_defs = run_schedule_def schedule_step_def example_submissions_def

text \<open>A run scheduled alone, three turns in a row, is the handler.\<close>

lemma run_alone:
  "run_schedule [(e, req)] [0, 0, 0] w
     = ([Finished (snd (completeAction e req w))], fst (completeAction e req w))"
proof (cases "gate e req w")
  case (Gate_stop out)
  then show ?thesis by (simp add: run_schedule_def schedule_step_def completeAction_def)
next
  case (Gate_pass a)
  show ?thesis
  proof (cases "transaction e req a (db w)")
    case (Inl s)
    then show ?thesis using Gate_pass
      by (simp add: run_schedule_def schedule_step_def completeAction_def)
  next
    case (Inr r)
    obtain d ns p where r: "r = (d, ns, p)" by (cases r) auto
    show ?thesis using Gate_pass Inr r
      by (simp add: run_schedule_def schedule_step_def completeAction_def split: prod.splits)
  qed
qed

lemma sum_nth_update:
  fixes F :: "nat \<Rightarrow> 'a \<Rightarrow> int"
  assumes "j < length ps"
  shows "(\<Sum>i = 0..<length ps. F i (ps[j := ph] ! i))
           = (\<Sum>i = 0..<length ps. F i (ps ! i)) - F j (ps ! j) + F j ph"
proof -
  have fin: "finite {0..<length ps}" and mem: "j \<in> {0..<length ps}" using assms by auto
  have a: "(\<Sum>i = 0..<length ps. F i (ps[j := ph] ! i))
         = F j (ps[j := ph] ! j) + (\<Sum>i \<in> {0..<length ps} - {j}. F i (ps[j := ph] ! i))"
    using sum.remove[OF fin mem] by blast
  have b: "(\<Sum>i = 0..<length ps. F i (ps ! i))
         = F j (ps ! j) + (\<Sum>i \<in> {0..<length ps} - {j}. F i (ps ! i))"
    using sum.remove[OF fin mem] by blast
  have c: "(\<Sum>i \<in> {0..<length ps} - {j}. F i (ps[j := ph] ! i))
         = (\<Sum>i \<in> {0..<length ps} - {j}. F i (ps ! i))"
    by (rule sum.cong) auto
  show ?thesis using a b c assms by simp
qed

lemma run_schedule_snoc:
  "run_schedule subs (sched @ [i]) w = schedule_step subs i (run_schedule subs sched w)"
  by (simp add: run_schedule_def)

lemma gate_depends:
  assumes "actions (db w) = actions (db w0)"
    and "lastCompletion (db w) (req_userId req) (body_actionId req)
           = lastCompletion (db w0) (req_userId req) (body_actionId req)"
  shows "gate e req w = gate e req w0"
  unfolding gate_def assms ..

lemma committed_db_fields:
  "actions (committed_db e req a u d) = actions d"
  "users (committed_db e req a u d) (req_userId req)
     = Some (u\<lparr>total_score := total_score u + scoreReward a, updated_at := sql_now e\<rparr>)"
  "user_action_completions (committed_db e req a u d) = user_action_completions d @
          [\<lparr>completion_id = uuid_completion e, user_id = req_userId req,
            action_id = body_actionId req, score_earned = scoreReward a,
            completed_at = sql_now e, client_ip = req_ip req\<rparr>]"
  by (simp_all add: committed_db_def)


lemma filter_other_actions:
  assumes "\<forall>c \<in> set added. action_id c \<noteq> aid"
  shows "filter (\<lambda>c. user_id c = u \<and> action_id c = aid) (old @ added)
           = filter (\<lambda>c. user_id c = u \<and> action_id c = aid) old"
  using assms by (induction added rule: rev_induct) auto

lemma advance_nothrow_Received:
  assumes "gate e req w = Gate_pass a"
  shows "advance e req Received w = (Gated a, w)"
  using assms by simp

lemma advance_nothrow_Gated:
  assumes "\<forall>s. \<not> throws e s" "users (db w) (req_userId req) = Some usr'"
  shows "\<exists>p. advance e req (Gated a) w
           = (Committed a (total_score usr' + scoreReward a) p,
              w\<lparr>db := committed_db e req a usr' (db w)\<rparr>)"
proof -
  have "transaction e req a (db w) =
     Inr (committed_db e req a usr' (db w), total_score usr' + scoreReward a,
          isSuspiciousJump e (req_userId req) (total_score usr' + scoreReward a) (total_score usr') a)"
    using assms by (intro transaction_commits) auto
  then show ?thesis by simp
qed

lemma advance_nothrow_Committed:
  assumes "\<forall>s. \<not> throws e s"
  shows "\<exists>w'. advance e req (Committed a ns p) w
            = (Finished (Json 200 (Success_body ns (scoreReward a) p)), w')
          \<and> db w' = db w"
proof -
  obtain w' out where ac: "after_commit e req a ns p w = (w', out)" by (cases "after_commit e req a ns p w")
  have "out = Json 200 (Success_body ns (scoreReward a) p)"
    using after_commit_ok[of e req a ns p w] assms ac by simp
  moreover have "db w' = db w" using after_commit_db[of e req a ns p w] ac by simp
  ultimately show ?thesis using ac by simp
qed


lemma inv_update:
  assumes inv: "run_invariant subs u usr w0 sched (ps, w)"
    and i: "i < length subs"
    and acts: "actions (db w') = actions (db w0)"
    and ok: "phase_ok w0 (snd (subs ! i)) ph'"
    and st: "stage ph' = min 3 (stage (ps ! i) + 1)"
    and score: "\<exists>usr' usr''. users (db w) u = Some usr' \<and> users (db w') u = Some usr''
                  \<and> total_score usr'' = total_score usr' + applied_reward w0 (subs ! i) ph'
                                            - applied_reward w0 (subs ! i) (ps ! i)"
    and compl: "\<exists>extra. user_action_completions (db w') = user_action_completions (db w) @ extra
                  \<and> int (length extra) = applied_count ph' - applied_count (ps ! i)
                  \<and> (\<forall>c \<in> set extra. 2 \<le> stage ph'
                         \<and> action_id c = body_actionId (snd (subs ! i)))"
  shows "run_invariant subs u usr w0 (sched @ [i]) (ps[i := ph'], w')"
proof -
  from inv have len: "length ps = length subs"
    and phs: "\<forall>j < length subs. phase_ok w0 (snd (subs ! j)) (ps ! j)
                 \<and> stage (ps ! j) = min 3 (count_list sched j)"
    and sc: "\<exists>usr'. users (db w) u = Some usr'
               \<and> total_score usr' = total_score usr
                    + (\<Sum>j = 0..<length subs. applied_reward w0 (subs ! j) (ps ! j))"
    and co: "\<exists>added. user_action_completions (db w) = user_action_completions (db w0) @ added
               \<and> int (length added) = (\<Sum>j = 0..<length subs. applied_count (ps ! j))
               \<and> (\<forall>c \<in> set added. \<exists>j < length subs. 2 \<le> stage (ps ! j)
                      \<and> action_id c = body_actionId (snd (subs ! j)))"
    by (simp_all add: run_invariant_def)
  have ilen: "i < length ps" using i len by simp
  have c3: "\<forall>j < length subs. phase_ok w0 (snd (subs ! j)) (ps[i := ph'] ! j)
                 \<and> stage (ps[i := ph'] ! j) = min 3 (count_list (sched @ [i]) j)"
  proof (intro allI impI)
    fix j assume j: "j < length subs"
    show "phase_ok w0 (snd (subs ! j)) (ps[i := ph'] ! j)
                 \<and> stage (ps[i := ph'] ! j) = min 3 (count_list (sched @ [i]) j)"
    proof (cases "j = i")
      case True
      have "stage ph' = min 3 (count_list sched i + 1)" using st phs i by auto
      then show ?thesis using True ok ilen by simp
    next
      case False
      then show ?thesis using phs j by simp
    qed
  qed
  have sumr: "(\<Sum>j = 0..<length subs. applied_reward w0 (subs ! j) (ps[i := ph'] ! j))
      = (\<Sum>j = 0..<length subs. applied_reward w0 (subs ! j) (ps ! j))
          - applied_reward w0 (subs ! i) (ps ! i) + applied_reward w0 (subs ! i) ph'"
    using sum_nth_update[OF ilen, of "\<lambda>j ph. applied_reward w0 (subs ! j) ph" ph'] len by simp
  have sumc: "(\<Sum>j = 0..<length subs. applied_count (ps[i := ph'] ! j))
      = (\<Sum>j = 0..<length subs. applied_count (ps ! j)) - applied_count (ps ! i) + applied_count ph'"
    using sum_nth_update[OF ilen, of "\<lambda>j ph. applied_count ph" ph'] len by simp
  have c4: "\<exists>usr'. users (db w') u = Some usr'
               \<and> total_score usr' = total_score usr
                    + (\<Sum>j = 0..<length subs. applied_reward w0 (subs ! j) (ps[i := ph'] ! j))"
    using sc score sumr by auto
  from co obtain added where added:
    "user_action_completions (db w) = user_action_completions (db w0) @ added"
    "int (length added) = (\<Sum>j = 0..<length subs. applied_count (ps ! j))"
    "\<forall>c \<in> set added. \<exists>j < length subs. 2 \<le> stage (ps ! j)
                      \<and> action_id c = body_actionId (snd (subs ! j))"
    by blast
  from compl obtain extra where extra:
    "user_action_completions (db w') = user_action_completions (db w) @ extra"
    "int (length extra) = applied_count ph' - applied_count (ps ! i)"
    "\<forall>c \<in> set extra. 2 \<le> stage ph' \<and> action_id c = body_actionId (snd (subs ! i))"
    by blast
  have mono: "2 \<le> stage (ps[i := ph'] ! j)" if "2 \<le> stage (ps ! j)" "j < length subs" for j
  proof (cases "j = i")
    case True
    then show ?thesis using that st ilen by simp
  next
    case False
    then show ?thesis using that by simp
  qed
  have c5: "\<exists>added'. user_action_completions (db w') = user_action_completions (db w0) @ added'
               \<and> int (length added') = (\<Sum>j = 0..<length subs. applied_count (ps[i := ph'] ! j))
               \<and> (\<forall>c \<in> set added'. \<exists>j < length subs. 2 \<le> stage (ps[i := ph'] ! j)
                      \<and> action_id c = body_actionId (snd (subs ! j)))"
  proof (intro exI[of _ "added @ extra"] conjI ballI)
    show "user_action_completions (db w') = user_action_completions (db w0) @ added @ extra"
      using added(1) extra(1) by simp
    show "int (length (added @ extra)) = (\<Sum>j = 0..<length subs. applied_count (ps[i := ph'] ! j))"
      using added(2) extra(2) sumc by simp
    fix c assume "c \<in> set (added @ extra)"
    then consider "c \<in> set added" | "c \<in> set extra" by auto
    then show "\<exists>j < length subs. 2 \<le> stage (ps[i := ph'] ! j)
                      \<and> action_id c = body_actionId (snd (subs ! j))"
    proof cases
      case 1
      then obtain j where "j < length subs" "2 \<le> stage (ps ! j)"
        "action_id c = body_actionId (snd (subs ! j))" using added(3) by blast
      then show ?thesis using mono by blast
    next
      case 2
      then show ?thesis using extra(3) i ilen by (intro exI[of _ i]) simp
    qed
  qed
  show ?thesis using len acts c3 c4 c5 by (simp add: run_invariant_def)
qed


lemma inv_skip:
  assumes inv: "run_invariant subs u usr w0 sched cfg" and i: "\<not> i < length subs"
  shows "run_invariant subs u usr w0 (sched @ [i]) cfg"
proof -
  have "count_list (sched @ [i]) j = count_list sched j" if "j < length subs" for j
    using that i by auto
  then show ?thesis using inv by (simp add: run_invariant_def)
qed

lemma step_preserves:
  assumes same_user: "\<forall>s \<in> set subs. req_userId (snd s) = u"
    and distinct_actions: "distinct (map (\<lambda>s. body_actionId (snd s)) subs)"
    and valid: "\<forall>s \<in> set subs. (\<exists>a. gate (fst s) (snd s) w0 = Gate_pass a)
                   \<and> (\<forall>st. \<not> throws (fst s) st)"
    and inv: "run_invariant subs u usr w0 sched cfg"
  shows "run_invariant subs u usr w0 (sched @ [i]) (schedule_step subs i cfg)"
proof (cases "i < length subs")
  case False
  then show ?thesis using inv_skip[OF inv False] by (simp add: schedule_step_def)
next
  case True
  obtain ps w where cfg: "cfg = (ps, w)" by (cases cfg)
  obtain e req where sub: "subs ! i = (e, req)" by (cases "subs ! i")
  have mem: "(e, req) \<in> set subs" using True sub nth_mem[OF True] by simp
  have uid: "req_userId req = u" using same_user mem by auto
  have nothrow: "\<forall>st. \<not> throws e st" using valid mem by auto
  obtain a0 where a0: "gate e req w0 = Gate_pass a0" using valid mem by auto
  have act0: "actions (db w0) (body_actionId req) = Some a0" using gate_pass_action[OF a0] .
  have rew: "reward_of w0 req = scoreReward a0" using act0 by (simp add: reward_of_def)
  from inv cfg have len: "length ps = length subs"
    and acts: "actions (db w) = actions (db w0)"
    and phs: "\<forall>j < length subs. phase_ok w0 (snd (subs ! j)) (ps ! j)
                 \<and> stage (ps ! j) = min 3 (count_list sched j)"
    and sc: "\<exists>usr'. users (db w) u = Some usr'
               \<and> total_score usr' = total_score usr
                    + (\<Sum>j = 0..<length subs. applied_reward w0 (subs ! j) (ps ! j))"
    and co: "\<exists>added. user_action_completions (db w) = user_action_completions (db w0) @ added
               \<and> int (length added) = (\<Sum>j = 0..<length subs. applied_count (ps ! j))
               \<and> (\<forall>c \<in> set added. \<exists>j < length subs. 2 \<le> stage (ps ! j)
                      \<and> action_id c = body_actionId (snd (subs ! j)))"
    by (simp_all add: run_invariant_def)
  have ilen: "i < length ps" using True len by simp
  have oki: "phase_ok w0 req (ps ! i)" using phs True sub by auto
  obtain usr' where usr': "users (db w) u = Some usr'" using sc by blast
  have step: "schedule_step subs i cfg
                = (ps[i := fst (advance e req (ps ! i) w)], snd (advance e req (ps ! i) w))"
    using True ilen cfg sub by (simp add: schedule_step_def split: prod.splits)
  have goal: "run_invariant subs u usr w0 (sched @ [i]) (ps[i := ph'], w')"
    if adv: "advance e req (ps ! i) w = (ph', w')"
      and 1: "actions (db w') = actions (db w0)"
      and 2: "phase_ok w0 req ph'"
      and 3: "stage ph' = min 3 (stage (ps ! i) + 1)"
      and 4: "\<exists>usr''. users (db w') u = Some usr''
                  \<and> total_score usr'' = total_score usr' + applied_reward w0 (subs ! i) ph'
                                            - applied_reward w0 (subs ! i) (ps ! i)"
      and 5: "\<exists>extra. user_action_completions (db w') = user_action_completions (db w) @ extra
                  \<and> int (length extra) = applied_count ph' - applied_count (ps ! i)
                  \<and> (\<forall>c \<in> set extra. 2 \<le> stage ph'
                         \<and> action_id c = body_actionId (snd (subs ! i)))"
    for ph' w'
    using inv_update[OF inv[unfolded cfg] True 1 _ 3 _ 5] 2 4 usr' sub by auto
  show ?thesis
  proof (cases "ps ! i")
    case Received
    from co obtain added where added:
      "user_action_completions (db w) = user_action_completions (db w0) @ added"
      "\<forall>c \<in> set added. \<exists>j < length subs. 2 \<le> stage (ps ! j)
                      \<and> action_id c = body_actionId (snd (subs ! j))"
      by blast
    have other: "\<forall>c \<in> set added. action_id c \<noteq> body_actionId req"
    proof
      fix c assume "c \<in> set added"
      then obtain j where j: "j < length subs" "2 \<le> stage (ps ! j)"
        "action_id c = body_actionId (snd (subs ! j))" using added(2) by blast
      have "j \<noteq> i" using j(2) Received by auto
      then have "body_actionId (snd (subs ! j)) \<noteq> body_actionId (snd (subs ! i))"
        using distinct_actions j(1) True by (auto simp: distinct_conv_nth)
      then show "action_id c \<noteq> body_actionId req" using j(3) sub by simp
    qed
    have "lastCompletion (db w) (req_userId req) (body_actionId req)
            = lastCompletion (db w0) (req_userId req) (body_actionId req)"
      using filter_other_actions[OF other] added(1) by (simp add: lastCompletion_def)
    then have "gate e req w = Gate_pass a0" using gate_depends[OF acts] a0 by simp
    then have adv: "advance e req (ps ! i) w = (Gated a0, w)" using Received by simp
    have "run_invariant subs u usr w0 (sched @ [i]) (ps[i := Gated a0], w)"
      using goal[OF adv acts] act0 usr' Received
      by (simp add: applied_reward_def applied_count_def)
    then show ?thesis using step adv by simp
  next
    case (Gated a)
    have a: "a = a0" using oki Gated act0 by simp
    obtain p where adv: "advance e req (ps ! i) w
           = (Committed a (total_score usr' + scoreReward a) p,
              w\<lparr>db := committed_db e req a usr' (db w)\<rparr>)"
      using advance_nothrow_Gated[OF nothrow, of w req usr' a] usr' uid Gated by auto
    have 4: "\<exists>usr''. users (db (w\<lparr>db := committed_db e req a usr' (db w)\<rparr>)) u = Some usr''
                  \<and> total_score usr'' = total_score usr'
                       + applied_reward w0 (subs ! i) (Committed a (total_score usr' + scoreReward a) p)
                       - applied_reward w0 (subs ! i) (ps ! i)"
      using committed_db_fields(2)[of e req a usr' "db w"] uid sub Gated a rew
      by (simp add: applied_reward_def)
    have 5: "\<exists>extra. user_action_completions (db (w\<lparr>db := committed_db e req a usr' (db w)\<rparr>))
                       = user_action_completions (db w) @ extra
                  \<and> int (length extra)
                       = applied_count (Committed a (total_score usr' + scoreReward a) p)
                           - applied_count (ps ! i)
                  \<and> (\<forall>c \<in> set extra. 2 \<le> stage (Committed a (total_score usr' + scoreReward a) p)
                         \<and> action_id c = body_actionId (snd (subs ! i)))"
      using committed_db_fields(3)[of e req a usr' "db w"] sub Gated
      by (simp add: applied_count_def)
    have "run_invariant subs u usr w0 (sched @ [i])
            (ps[i := Committed a (total_score usr' + scoreReward a) p],
             w\<lparr>db := committed_db e req a usr' (db w)\<rparr>)"
      using goal[OF adv _ _ _ 4 5] acts act0 a Gated by (simp add: committed_db_fields(1))
    then show ?thesis using step adv by simp
  next
    case (Committed a ns p)
    have a: "a = a0" using oki Committed act0 by simp
    obtain w' where adv: "advance e req (ps ! i) w
            = (Finished (Json 200 (Success_body ns (scoreReward a) p)), w')"
      and dbw': "db w' = db w"
      using advance_nothrow_Committed[OF nothrow, of req a ns p w] Committed by auto
    have "run_invariant subs u usr w0 (sched @ [i])
            (ps[i := Finished (Json 200 (Success_body ns (scoreReward a) p))], w')"
      using goal[OF adv] acts dbw' usr' Committed a rew
      by (simp add: applied_reward_def applied_count_def)
    then show ?thesis using step adv by simp
  next
    case (Finished out)
    have adv: "advance e req (ps ! i) w = (Finished out, w)" using Finished by simp
    have "run_invariant subs u usr w0 (sched @ [i]) (ps[i := Finished out], w)"
      using goal[OF adv acts] oki usr' Finished
      by (simp add: applied_reward_def applied_count_def)
    then show ?thesis using step adv by simp
  qed
qed


lemma inv_initial:
  assumes "users (db w0) u = Some usr"
  shows "run_invariant subs u usr w0 [] (run_schedule subs [] w0)"
  using assms by (simp add: run_invariant_def run_schedule_def applied_reward_def applied_count_def)

lemma run_invariant_holds:
  assumes same_user: "\<forall>s \<in> set subs. req_userId (snd s) = u"
    and distinct_actions: "distinct (map (\<lambda>s. body_actionId (snd s)) subs)"
    and valid: "\<forall>s \<in> set subs. (\<exists>a. gate (fst s) (snd s) w0 = Gate_pass a)
                   \<and> (\<forall>st. \<not> throws (fst s) st)"
    and user: "users (db w0) u = Some usr"
  shows "run_invariant subs u usr w0 sched (run_schedule subs sched w0)"
proof (induction sched rule: rev_induct)
  case Nil
  show ?case using inv_initial[OF user] .
next
  case (snoc i sched)
  show ?case
    using step_preserves[OF same_user distinct_actions valid snoc.IH, of i]
    by (simp add: run_schedule_snoc)
qed

lemma sum_all_applied:
  assumes "length ps = length subs" "\<forall>i < length subs. stage (ps ! i) = 3"
  shows "(\<Sum>i = 0..<length subs. applied_reward w0 (subs ! i) (ps ! i))
           = sum_list (map (\<lambda>s. reward_of w0 (snd s)) subs)"
    and "(\<Sum>i = 0..<length subs. applied_count (ps ! i)) = int (length subs)"
proof -
  have "(\<Sum>i = 0..<length subs. applied_reward w0 (subs ! i) (ps ! i))
          = (\<Sum>i = 0..<length subs. map (\<lambda>s. reward_of w0 (snd s)) subs ! i)"
    using assms by (intro sum.cong) (auto simp: applied_reward_def)
  then show "(\<Sum>i = 0..<length subs. applied_reward w0 (subs ! i) (ps ! i))
           = sum_list (map (\<lambda>s. reward_of w0 (snd s)) subs)"
    using sum_list_sum_nth[of "map (\<lambda>s. reward_of w0 (snd s)) subs"] by simp
  have "(\<Sum>i = 0..<length subs. applied_count (ps ! i)) = (\<Sum>i = 0..<length subs. 1)"
    using assms by (intro sum.cong) (auto simp: applied_count_def)
  then show "(\<Sum>i = 0..<length subs. applied_count (ps ! i)) = int (length subs)" by simp
qed

text \<open>
  Claim C7, as the handler has it. Take any number of submissions of one user for
  pairwise different actions, each of which passes the gate in the starting world, with
  nothing throwing. In every schedule that lets each run take its three parts (every
  interleaving at the handler's suspension points, the transaction being one part under
  the row lock), all runs finish with reply 200, the stored score is the starting score
  plus the sum of all rewards, and exactly one completion row per submission is added.
  There is no version column to count the commits.
\<close>

theorem no_lost_updates:
  assumes same_user: "\<forall>s \<in> set subs. req_userId (snd s) = u"
    and distinct_actions: "distinct (map (\<lambda>s. body_actionId (snd s)) subs)"
    and valid: "\<forall>s \<in> set subs. (\<exists>a. gate (fst s) (snd s) w0 = Gate_pass a)
                   \<and> (\<forall>st. \<not> throws (fst s) st)"
    and user: "users (db w0) u = Some usr"
    and complete: "\<forall>i < length subs. 3 \<le> count_list sched i"
  shows "\<exists>usr'. users (db (snd (run_schedule subs sched w0))) u = Some usr'
           \<and> total_score usr' = total_score usr + sum_list (map (\<lambda>s. reward_of w0 (snd s)) subs)
           \<and> length (user_action_completions (db (snd (run_schedule subs sched w0))))
                = length (user_action_completions (db w0)) + length subs
           \<and> (\<forall>i < length subs. \<exists>newScore isProbable.
                  fst (run_schedule subs sched w0) ! i
                    = Finished (Json 200 (Success_body newScore
                                            (reward_of w0 (snd (subs ! i))) isProbable)))"
proof -
  let ?ps = "fst (run_schedule subs sched w0)"
  let ?w = "snd (run_schedule subs sched w0)"
  have inv: "run_invariant subs u usr w0 sched (?ps, ?w)"
    using run_invariant_holds[OF same_user distinct_actions valid user, of sched] by simp
  then have len: "length ?ps = length subs"
    and phs: "\<forall>j < length subs. phase_ok w0 (snd (subs ! j)) (?ps ! j)
                 \<and> stage (?ps ! j) = min 3 (count_list sched j)"
    and sc: "\<exists>usr'. users (db ?w) u = Some usr'
               \<and> total_score usr' = total_score usr
                    + (\<Sum>j = 0..<length subs. applied_reward w0 (subs ! j) (?ps ! j))"
    and co: "\<exists>added. user_action_completions (db ?w) = user_action_completions (db w0) @ added
               \<and> int (length added) = (\<Sum>j = 0..<length subs. applied_count (?ps ! j))"
    by (auto simp: run_invariant_def)
  have st3: "\<forall>i < length subs. stage (?ps ! i) = 3" using phs complete by auto
  have fin: "\<exists>newScore isProbable. ?ps ! i
                    = Finished (Json 200 (Success_body newScore
                                            (reward_of w0 (snd (subs ! i))) isProbable))"
    if "i < length subs" for i
  proof -
    have "stage (?ps ! i) = 3" and ok: "phase_ok w0 (snd (subs ! i)) (?ps ! i)"
      using st3 phs that by auto
    then obtain out where out: "?ps ! i = Finished out" by (cases "?ps ! i") auto
    with ok show ?thesis by simp
  qed
  from sc sum_all_applied(1)[OF len st3] obtain usr' where
    usr': "users (db ?w) u = Some usr'"
      "total_score usr' = total_score usr + sum_list (map (\<lambda>s. reward_of w0 (snd s)) subs)"
    by auto
  from co sum_all_applied(2)[OF len st3] obtain added where
    "user_action_completions (db ?w) = user_action_completions (db w0) @ added"
    "length added = length subs" by auto
  then have "length (user_action_completions (db ?w))
                = length (user_action_completions (db w0)) + length subs" by simp
  then show ?thesis using usr' fin by blast
qed

theorem no_lost_updates_witness:
  "(\<exists>usr'. users (db (snd (run_schedule example_submissions [0, 1, 1, 0, 0, 1] example_world))) ''u1''
             = Some usr' \<and> total_score usr' = 80)
   \<and> (\<exists>usr'. users (db (snd (run_schedule example_submissions [1, 0, 1, 1, 0, 0] example_world))) ''u1''
             = Some usr' \<and> total_score usr' = 80)
   \<and> length (user_action_completions
        (db (snd (run_schedule example_submissions [0, 1, 1, 0, 0, 1] example_world)))) = 2"
proof -
  let ?usr = "\<lparr>total_score = 0, created_at = 1000, updated_at = 1000\<rparr>"
  have same_user: "\<forall>s \<in> set example_submissions. req_userId (snd s) = ''u1''"
    by (simp add: example_submissions_def example_defs)
  have distinct_actions: "distinct (map (\<lambda>s. body_actionId (snd s)) example_submissions)"
    by (simp add: example_submissions_def example_defs)
  have valid: "\<forall>s \<in> set example_submissions.
      (\<exists>a. gate (fst s) (snd s) example_world = Gate_pass a) \<and> (\<forall>st. \<not> throws (fst s) st)"
    by (simp add: example_submissions_def example_defs gate_def lastCompletion_def)
  have user: "users (db example_world) ''u1'' = Some ?usr" by (simp add: example_defs)
  have c1: "\<forall>i < length example_submissions. 3 \<le> count_list [0, 1, 1, 0, 0, 1] i"
    by (simp add: example_submissions_def less_Suc_eq)
  have c2: "\<forall>i < length example_submissions. 3 \<le> count_list [1, 0, 1, 1, 0, 0] i"
    by (simp add: example_submissions_def less_Suc_eq)
  have total: "total_score ?usr + sum_list (map (\<lambda>s. reward_of example_world (snd s)) example_submissions) = 80"
    by (simp add: example_submissions_def example_defs reward_of_def)
  have len: "length (user_action_completions (db example_world)) + length example_submissions = 2"
    by (simp add: example_submissions_def example_defs)
  from no_lost_updates[OF same_user distinct_actions valid user c1] total len
  have r1: "(\<exists>usr'. users (db (snd (run_schedule example_submissions [0, 1, 1, 0, 0, 1] example_world))) ''u1''
             = Some usr' \<and> total_score usr' = 80)
     \<and> length (user_action_completions
        (db (snd (run_schedule example_submissions [0, 1, 1, 0, 0, 1] example_world)))) = 2"
    by auto
  from no_lost_updates[OF same_user distinct_actions valid user c2] total
  have r2: "\<exists>usr'. users (db (snd (run_schedule example_submissions [1, 0, 1, 1, 0, 0] example_world))) ''u1''
             = Some usr' \<and> total_score usr' = 80"
    by auto
  show ?thesis using r1 r2 by blast
qed

text \<open>
  The claim as stated fails in its second half: after two committed submissions no column
  of the user's row is its old value plus two. \<^verbatim>\<open>updated_at\<close> holds the database clock
  of whichever transaction committed last, 10002 in one interleaving and 10003 in another.
\<close>

theorem no_version_after_two_counterexample:
  "users (db example_world) ''u1'' = Some \<lparr>total_score = 0, created_at = 1000, updated_at = 1000\<rparr>
   \<and> users (db (snd (run_schedule example_submissions [0, 1, 1, 0, 0, 1] example_world))) ''u1''
       = Some \<lparr>total_score = 80, created_at = 1000, updated_at = 10002\<rparr>
   \<and> users (db (snd (run_schedule example_submissions [1, 0, 0, 1, 1, 0] example_world))) ''u1''
       = Some \<lparr>total_score = 80, created_at = 1000, updated_at = 10003\<rparr>
   \<and> map_option updated_at
        (users (db (snd (run_schedule example_submissions [0, 1, 1, 0, 0, 1] example_world))) ''u1'')
       \<noteq> map_option (\<lambda>r. updated_at r + 2) (users (db example_world) ''u1'')
   \<and> map_option total_score
        (users (db (snd (run_schedule example_submissions [0, 1, 1, 0, 0, 1] example_world))) ''u1'')
       \<noteq> map_option (\<lambda>r. total_score r + 2) (users (db example_world) ''u1'')
   \<and> map_option created_at
        (users (db (snd (run_schedule example_submissions [0, 1, 1, 0, 0, 1] example_world))) ''u1'')
       \<noteq> map_option (\<lambda>r. created_at r + 2) (users (db example_world) ''u1'')"
  by (simp add: run_defs handler_defs example_defs)

end
